theory Spec2Isabelle
  imports Complex_Main "HOL-Library.FSet"
begin

section \<open>Strings and numbers of the host language\<close>

text \<open>
  A source string is a sequence of UTF-16 code units. The model covers the code units
  U+0000 .. U+00FF: one \<^typ>\<open>char\<close> is one code unit, and \<^const>\<open>length\<close> is the
  source's \<^verbatim>\<open>.length\<close>.
\<close>

definition code_unit :: "char \<Rightarrow> nat" where
  "code_unit c = of_char c"

definition is_upper :: "char \<Rightarrow> bool" where
  "is_upper c = (65 \<le> code_unit c \<and> code_unit c \<le> 90)"

definition is_lower :: "char \<Rightarrow> bool" where
  "is_lower c = (97 \<le> code_unit c \<and> code_unit c \<le> 122)"

definition is_digit :: "char \<Rightarrow> bool" where
  "is_digit c = (48 \<le> code_unit c \<and> code_unit c \<le> 57)"

text \<open>The regular-expression class \<^verbatim>\<open>\w\<close>: \<^verbatim>\<open>[A-Za-z0-9_]\<close>.\<close>

definition is_word :: "char \<Rightarrow> bool" where
  "is_word c = (is_upper c \<or> is_lower c \<or> is_digit c \<or> c = CHR ''_'')"

text \<open>
  The class \<^verbatim>\<open>\s\<close>, which is also what \<^verbatim>\<open>trim\<close> strips: TAB, LF, VT, FF, CR,
  SPACE and NO-BREAK SPACE are the white space and line terminators below U+0100.
\<close>

definition is_space :: "char \<Rightarrow> bool" where
  "is_space c = (code_unit c \<in> {9, 10, 11, 12, 13, 32, 160})"

text \<open>
  \<^verbatim>\<open>toLowerCase\<close> on one code unit: the ASCII capitals and the Latin-1 capitals
  U+00C0 .. U+00DE (without the multiplication sign U+00D7) move up by 32.
\<close>

definition lower_char :: "char \<Rightarrow> char" where
  "lower_char c =
     (let n = code_unit c
      in if (65 \<le> n \<and> n \<le> 90) \<or> (192 \<le> n \<and> n \<le> 222 \<and> n \<noteq> 215)
         then char_of (n + 32) else c)"

definition toLowerCase :: "string \<Rightarrow> string" where
  "toLowerCase s = map lower_char s"

definition trim :: "string \<Rightarrow> string" where
  "trim s = rev (dropWhile is_space (rev (dropWhile is_space s)))"

text \<open>
  \<^verbatim>\<open>s.replace(/[C]+/g, sep)\<close> for a character class \<open>C\<close>: every maximal run
  of characters of the class becomes one separator.
\<close>

function replace_runs :: "(char \<Rightarrow> bool) \<Rightarrow> string \<Rightarrow> string \<Rightarrow> string" where
  "replace_runs P sep [] = []"
| "replace_runs P sep (c # cs) =
     (if P c then sep @ replace_runs P sep (dropWhile P cs)
      else c # replace_runs P sep cs)"
  by pat_completeness auto
termination
  by (relation "measure (\<lambda>(P, sep, s). length s)")
     (auto simp: length_dropWhile_le less_Suc_eq_le)

text \<open>
  \<^verbatim>\<open>s.replace(/^-|-$/g, '')\<close>: one separator at the start and one at the end
  are removed.
\<close>

definition strip_ends :: "char \<Rightarrow> string \<Rightarrow> string" where
  "strip_ends sep s =
     (let t = (case s of [] \<Rightarrow> [] | c # cs \<Rightarrow> if c = sep then cs else s)
      in if t \<noteq> [] \<and> last t = sep then butlast t else t)"

text \<open>
  The template literal \<^verbatim>\<open>`${counter}`\<close> of a non-negative integer: its decimal
  digits (the source's numbers print so below \<open>10\<^sup>2\<^sup>1\<close>).
\<close>

fun string_of_nat :: "nat \<Rightarrow> string" where
  "string_of_nat n =
     (if n < 10 then [char_of (48 + n)]
      else string_of_nat (n div 10) @ [char_of (48 + n mod 10)])"

declare string_of_nat.simps [simp del]

text \<open>
  The digits read back as a number, and the number after the last separator of a path.
  They serve to count the numbered paths of a set.
\<close>

definition nat_of_digits :: "string \<Rightarrow> nat" where
  "nat_of_digits s = foldl (\<lambda>a c. 10 * a + (code_unit c - 48)) 0 s"

definition number_tail :: "char \<Rightarrow> string \<Rightarrow> nat" where
  "number_tail sep s = nat_of_digits (rev (takeWhile (\<lambda>c. c \<noteq> sep) (rev s)))"

section \<open>The path generator\<close>

text \<open>
  \<^verbatim>\<open>class PathGenerator\<close>: the maximal length, the separator and the set of
  paths in use, which \<^verbatim>\<open>generatePath\<close> extends.
\<close>

record PathGenerator =
  maxLength :: nat
  separator :: char
  existingPaths :: "string fset"

text \<open>The constructor; \<^verbatim>\<open>maxLength\<close> defaults to 100.\<close>

definition new_PathGenerator :: "string list \<Rightarrow> nat \<Rightarrow> PathGenerator" where
  "new_PathGenerator paths maxLen =
     \<lparr>maxLength = maxLen, separator = CHR ''-'', existingPaths = fset_of_list paths\<rparr>"

definition default_maxLength :: nat where
  "default_maxLength = 100"

definition slugify :: "PathGenerator \<Rightarrow> string \<Rightarrow> string" where
  "slugify g text =
     strip_ends (separator g)
       (replace_runs (\<lambda>c. c = separator g) [separator g]
         (replace_runs (\<lambda>c. is_space c \<or> c = CHR ''_'') [separator g]
           (filter (\<lambda>c. is_word c \<or> is_space c \<or> c = CHR ''-'')
             (trim (toLowerCase text)))))"

text \<open>
  The \<^verbatim>\<open>while\<close> loop of \<^verbatim>\<open>makeUnique\<close>, on the variables \<^verbatim>\<open>path\<close>,
  \<^verbatim>\<open>counter\<close> and \<^verbatim>\<open>finalPath\<close>. \<^verbatim>\<open>substring(0, k)\<close> with a negative
  \<open>k\<close> is the empty string, as \<^const>\<open>take\<close> at the truncated difference is.
\<close>

function makeUnique_loop :: "PathGenerator \<Rightarrow> string \<Rightarrow> nat \<Rightarrow> string \<Rightarrow> string" where
  "makeUnique_loop g path counter finalPath =
     (if finalPath |\<in>| existingPaths g then
        (if length (path @ separator g # string_of_nat counter) > maxLength g then
           makeUnique_loop g
             (take (maxLength g - length (separator g # string_of_nat (counter + 1))) path)
             (counter + 1)
             (take (maxLength g - length (separator g # string_of_nat (counter + 1))) path
                @ separator g # string_of_nat (counter + 1))
         else
           makeUnique_loop g path (counter + 1)
             (path @ separator g # string_of_nat counter))
      else finalPath)"
  by pat_completeness auto

text \<open>
  The loop ends because the set is finite: a tested path that is still in the set ends in
  the digits of a number close to the counter, and a path of the set has no room for the
  digits of a large number.
\<close>

definition longest :: "string fset \<Rightarrow> nat" where
  "longest E = Max (insert 0 (length ` fset E))"

lemma longest_ge: "x |\<in>| E \<Longrightarrow> length x \<le> longest E"
  unfolding longest_def by (intro Max_ge) auto

lemma string_of_nat_bound: "n < 10 ^ length (string_of_nat n)"
proof (induction n rule: string_of_nat.induct)
  case (1 n)
  show ?case
  proof (cases "n < 10")
    case True
    then show ?thesis by (simp add: string_of_nat.simps)
  next
    case False
    with 1 have "n div 10 < 10 ^ length (string_of_nat (n div 10))" by simp
    then have "n < 10 * 10 ^ length (string_of_nat (n div 10))" by linarith
    with False show ?thesis by (simp add: string_of_nat.simps[of n])
  qed
qed

lemma numbered_path_in_set:
  assumes "p @ sep # string_of_nat n |\<in>| E"
  shows "n < 10 ^ longest E"
proof -
  have "length (string_of_nat n) \<le> longest E"
    using longest_ge[OF assms] by simp
  then have "(10::nat) ^ length (string_of_nat n) \<le> 10 ^ longest E"
    by (intro power_increasing) auto
  with string_of_nat_bound[of n] show ?thesis by linarith
qed

termination makeUnique_loop
proof (relation "measure (\<lambda>(g, path, counter, finalPath).
          (if finalPath |\<in>| existingPaths g then 1 else 0)
          + 2 * (10 ^ longest (existingPaths g) + 1 - counter))", goal_cases)
  case 1
  show ?case by simp
next
  case (2 g path counter finalPath)
  then show ?case
    using numbered_path_in_set[of
        "take (maxLength g - length (separator g # string_of_nat (counter + 1))) path"
        "separator g" "counter + 1" "existingPaths g"]
    by auto
next
  case (3 g path counter finalPath)
  then show ?case
    using numbered_path_in_set[of path "separator g" counter "existingPaths g"]
    by auto
qed

declare makeUnique_loop.simps [simp del]

definition makeUnique :: "PathGenerator \<Rightarrow> string \<Rightarrow> string" where
  "makeUnique g basePath =
     (let path = (if length basePath > maxLength g
                  then take (maxLength g - 3) basePath else basePath)
      in makeUnique_loop g path 1 path)"

text \<open>\<^verbatim>\<open>generatePath\<close> returns the path and the generator with the path added.\<close>

definition generatePath :: "PathGenerator \<Rightarrow> string \<Rightarrow> string \<times> PathGenerator" where
  "generatePath g title =
     (let slugged = slugify g title;
          uniquePath = makeUnique g slugged
      in (uniquePath, g\<lparr>existingPaths := finsert uniquePath (existingPaths g)\<rparr>))"

text \<open>A sequence of \<^verbatim>\<open>generatePath\<close> calls on one generator, in order.\<close>

fun generatePath_calls :: "PathGenerator \<Rightarrow> string list \<Rightarrow> string list \<times> PathGenerator" where
  "generatePath_calls g [] = ([], g)"
| "generatePath_calls g (title # titles) =
     (case generatePath g title of
        (p, g') \<Rightarrow> (case generatePath_calls g' titles of (ps, g'') \<Rightarrow> (p # ps, g'')))"

text \<open>
  The path that \<^verbatim>\<open>updateNews\<close> computes: \<open>allPaths\<close> is what
  \<^verbatim>\<open>getAllExistingPaths\<close> returns, every path of the news table, \<^verbatim>\<open>currentPath\<close> is \<^verbatim>\<open>currentNews?.path\<close>, which is
  \<^verbatim>\<open>undefined\<close> (here \<^const>\<open>None\<close>) when no news has the id, and then differs
  from every path.
\<close>

definition updateNews_path :: "string list \<Rightarrow> string option \<Rightarrow> string \<Rightarrow> string" where
  "updateNews_path allPaths currentPath title =
     (let filteredPaths = filter (\<lambda>p. Some p \<noteq> currentPath) allPaths;
          pathGenerator = new_PathGenerator filteredPaths default_maxLength
      in fst (generatePath pathGenerator title))"

text \<open>The path that \<^verbatim>\<open>createNews\<close> computes.\<close>

definition createNews_path :: "string list \<Rightarrow> string \<Rightarrow> string" where
  "createNews_path allPaths title =
     fst (generatePath (new_PathGenerator allPaths default_maxLength) title)"

text \<open>The slugified form of a title, as every generator of the application computes it.\<close>

definition slug_of :: "string \<Rightarrow> string" where
  "slug_of title = slugify (new_PathGenerator [] default_maxLength) title"

text \<open>
  The invariant of the loop of \<^verbatim>\<open>makeUnique\<close>. \<open>below g k\<close> counts the paths in use
  whose number is less than \<open>k\<close>. After the first round the tested path carries the
  number \<open>counter - 1\<close>, or the number \<open>counter\<close> when the round has cut the base, and
  the counter is at most twice the count of smaller numbers in use, plus three.
\<close>

definition below :: "PathGenerator \<Rightarrow> nat \<Rightarrow> nat" where
  "below g k = card {s \<in> fset (existingPaths g). number_tail (separator g) s < k}"

definition loop_inv :: "PathGenerator \<Rightarrow> string \<Rightarrow> nat \<Rightarrow> string \<Rightarrow> bool" where
  "loop_inv g path counter finalPath =
     (length finalPath \<le> maxLength g \<and>
      (counter = 1
       \<or> (2 \<le> counter \<and> finalPath = path @ separator g # string_of_nat (counter - 1)
            \<and> counter \<le> 2 * below g (counter - 1) + 3)
       \<or> (2 \<le> counter \<and> finalPath = path @ separator g # string_of_nat counter
            \<and> counter \<le> 2 * below g counter + 2)))"

section \<open>Comments and the two scores\<close>

text \<open>
  A thrown \<^verbatim>\<open>Error\<close> carries its message; an error of the storage client carries
  its code (\<^verbatim>\<open>P2002\<close> unique constraint, \<^verbatim>\<open>P2025\<close> record not found).
\<close>

datatype error = Error string | PrismaError string | TypeError

text \<open>
  The rows that \<^verbatim>\<open>comment.ts\<close> reads and writes, with the columns it names.
  A table is the list of its rows.
\<close>

record User =
  user_id :: string

record NewsInteraction =
  ni_id :: string
  ni_newsId :: string
  popularityScore :: int

record UserInteraction =
  ui_id :: string
  ui_userId :: string
  contributionScore :: int

record Comment =
  comment_id :: string
  comment_text :: string
  newsInteractionId :: string
  userInteractionId :: string

record Database =
  newsInteraction_rows :: "NewsInteraction list"
  userInteraction_rows :: "UserInteraction list"
  comment_rows :: "Comment list"

record CommentInput =
  input_text :: string
  input_newsId :: string

definition newsInteraction_findFirst :: "Database \<Rightarrow> string \<Rightarrow> NewsInteraction option" where
  "newsInteraction_findFirst db nid = find (\<lambda>r. ni_newsId r = nid) (newsInteraction_rows db)"

definition userInteraction_findFirst :: "Database \<Rightarrow> string \<Rightarrow> UserInteraction option" where
  "userInteraction_findFirst db uid = find (\<lambda>r. ui_userId r = uid) (userInteraction_rows db)"

definition userInteraction_findUnique :: "Database \<Rightarrow> string \<Rightarrow> UserInteraction option" where
  "userInteraction_findUnique db i = find (\<lambda>r. ui_id r = i) (userInteraction_rows db)"

definition comment_findUnique :: "Database \<Rightarrow> string \<Rightarrow> Comment option" where
  "comment_findUnique db cid = find (\<lambda>c. comment_id c = cid) (comment_rows db)"

text \<open>\<^verbatim>\<open>create\<close> fails on a primary key that is taken.\<close>

definition comment_create :: "Database \<Rightarrow> Comment \<Rightarrow> error + Database" where
  "comment_create db c =
     (if comment_findUnique db (comment_id c) \<noteq> None then Inl (PrismaError ''P2002'')
      else Inr (db\<lparr>comment_rows := comment_rows db @ [c]\<rparr>))"

text \<open>\<^verbatim>\<open>delete\<close> and \<^verbatim>\<open>update\<close> fail when no row has the id.\<close>

definition comment_delete :: "Database \<Rightarrow> string \<Rightarrow> error + Database" where
  "comment_delete db cid =
     (if comment_findUnique db cid = None then Inl (PrismaError ''P2025'')
      else Inr (db\<lparr>comment_rows := filter (\<lambda>c. comment_id c \<noteq> cid) (comment_rows db)\<rparr>))"

definition newsInteraction_increment :: "Database \<Rightarrow> string \<Rightarrow> int \<Rightarrow> error + Database" where
  "newsInteraction_increment db i k =
     (if find (\<lambda>r. ni_id r = i) (newsInteraction_rows db) = None then Inl (PrismaError ''P2025'')
      else Inr (db\<lparr>newsInteraction_rows :=
             map (\<lambda>r. if ni_id r = i then r\<lparr>popularityScore := popularityScore r + k\<rparr> else r)
               (newsInteraction_rows db)\<rparr>))"

definition userInteraction_increment :: "Database \<Rightarrow> string \<Rightarrow> int \<Rightarrow> error + Database" where
  "userInteraction_increment db i k =
     (if find (\<lambda>r. ui_id r = i) (userInteraction_rows db) = None then Inl (PrismaError ''P2025'')
      else Inr (db\<lparr>userInteraction_rows :=
             map (\<lambda>r. if ui_id r = i then r\<lparr>contributionScore := contributionScore r + k\<rparr> else r)
               (userInteraction_rows db)\<rparr>))"

text \<open>
  \<^verbatim>\<open>prisma.$transaction\<close>: the body's writes are kept when it returns and dropped
  when it throws.
\<close>

definition transaction :: "(Database \<Rightarrow> error + Database) \<Rightarrow> Database \<Rightarrow> (error + unit) \<times> Database" where
  "transaction body db = (case body db of Inl e \<Rightarrow> (Inl e, db) | Inr db' \<Rightarrow> (Inr (), db'))"

text \<open>
  The transaction of \<^verbatim>\<open>addComment\<close>. The id of the new row is the storage
  layer's choice and is passed in as \<open>newId\<close>.
\<close>

definition addComment_tx :: "User \<Rightarrow> CommentInput \<Rightarrow> string \<Rightarrow> Database \<Rightarrow> error + Database" where
  "addComment_tx user data newId tx =
     (case newsInteraction_findFirst tx (input_newsId data) of
        None \<Rightarrow> Inl (Error ''News interaction not found'')
      | Some newsInteraction \<Rightarrow>
     (case userInteraction_findFirst tx (user_id user) of
        None \<Rightarrow> Inl (Error ''User interaction not found'')
      | Some userInteraction \<Rightarrow>
     (case comment_create tx
             \<lparr>comment_id = newId, comment_text = input_text data,
              newsInteractionId = ni_id newsInteraction,
              userInteractionId = ui_id userInteraction\<rparr> of
        Inl e \<Rightarrow> Inl e
      | Inr tx1 \<Rightarrow>
     (case newsInteraction_increment tx1 (ni_id newsInteraction) 2 of
        Inl e \<Rightarrow> Inl e
      | Inr tx2 \<Rightarrow> userInteraction_increment tx2 (ui_id userInteraction) 2))))"

text \<open>
  \<^verbatim>\<open>addComment\<close>: the result and the database afterwards. \<open>currentUser\<close> is
  what \<^verbatim>\<open>getCurrentUserData()\<close> resolves to. The schema reports its first
  violated rule.
\<close>

definition addComment :: "Database \<Rightarrow> User option \<Rightarrow> CommentInput \<Rightarrow> string \<Rightarrow> (error + unit) \<times> Database" where
  "addComment db currentUser data newId =
     (if length (input_text data) < 1 then (Inl (Error ''Comment cannot be empty''), db)
      else if length (input_text data) > 500 then (Inl (Error ''Comment is too long''), db)
      else if length (input_newsId data) < 1
        then (Inl (Error ''String must contain at least 1 character(s)''), db)
      else (case currentUser of
              None \<Rightarrow> (Inl (Error ''Unauthorized''), db)
            | Some user \<Rightarrow> transaction (addComment_tx user data newId) db))"

definition deleteComment_tx :: "Comment \<Rightarrow> string \<Rightarrow> Database \<Rightarrow> error + Database" where
  "deleteComment_tx comment commentId tx =
     (case comment_delete tx commentId of
        Inl e \<Rightarrow> Inl e
      | Inr tx1 \<Rightarrow>
     (case newsInteraction_increment tx1 (newsInteractionId comment) (- 2) of
        Inl e \<Rightarrow> Inl e
      | Inr tx2 \<Rightarrow> userInteraction_increment tx2 (userInteractionId comment) (- 2)))"

text \<open>
  \<^verbatim>\<open>deleteComment\<close>. The included relation \<^verbatim>\<open>comment.userInteraction\<close> is the
  row the comment's foreign key names, and \<^verbatim>\<open>userInteraction.user.id\<close> is that
  row's \<^verbatim>\<open>userId\<close>; reading through a missing relation is a \<^verbatim>\<open>TypeError\<close>.
\<close>

definition deleteComment :: "Database \<Rightarrow> User option \<Rightarrow> string \<Rightarrow> (error + unit) \<times> Database" where
  "deleteComment db currentUser commentId =
     (case currentUser of
        None \<Rightarrow> (Inl (Error ''Unauthorized''), db)
      | Some user \<Rightarrow>
     (case comment_findUnique db commentId of
        None \<Rightarrow> (Inl (Error ''Comment not found''), db)
      | Some comment \<Rightarrow>
     (case userInteraction_findUnique db (userInteractionId comment) of
        None \<Rightarrow> (Inl TypeError, db)
      | Some userInteraction \<Rightarrow>
          if ui_userId userInteraction \<noteq> user_id user then (Inl (Error ''Unauthorized''), db)
          else transaction (deleteComment_tx comment commentId) db)))"

text \<open>A sequence of calls by one session, with the result of each call.\<close>

datatype call = AddComment CommentInput string | DeleteComment string

fun perform :: "Database \<Rightarrow> User option \<Rightarrow> call \<Rightarrow> (error + unit) \<times> Database" where
  "perform db currentUser (AddComment data newId) = addComment db currentUser data newId"
| "perform db currentUser (DeleteComment commentId) = deleteComment db currentUser commentId"

fun perform_all :: "Database \<Rightarrow> User option \<Rightarrow> call list \<Rightarrow> (error + unit) list \<times> Database" where
  "perform_all db currentUser [] = ([], db)"
| "perform_all db currentUser (c # cs) =
     (case perform db currentUser c of
        (r, db') \<Rightarrow> (case perform_all db' currentUser cs of (rs, db'') \<Rightarrow> (r # rs, db'')))"

fun is_add :: "call \<Rightarrow> bool" where
  "is_add (AddComment data newId) = True"
| "is_add (DeleteComment commentId) = False"

definition succeeded :: "(call \<Rightarrow> bool) \<Rightarrow> call list \<Rightarrow> (error + unit) list \<Rightarrow> nat" where
  "succeeded kind cs rs = length (filter (\<lambda>(c, r). kind c \<and> isl r = False) (zip cs rs))"

text \<open>The score of a news item and the score of a user, when they have their row.\<close>

definition popularityScore_of :: "Database \<Rightarrow> string \<Rightarrow> int option" where
  "popularityScore_of db nid = map_option popularityScore (newsInteraction_findFirst db nid)"

definition contributionScore_of :: "Database \<Rightarrow> string \<Rightarrow> int option" where
  "contributionScore_of db uid = map_option contributionScore (userInteraction_findFirst db uid)"

text \<open>
  The data model: ids are primary keys, a news item has one interaction row and a user
  has one.
\<close>

definition well_formed :: "Database \<Rightarrow> bool" where
  "well_formed db =
     (distinct (map ni_id (newsInteraction_rows db)) \<and>
      distinct (map ni_newsId (newsInteraction_rows db)) \<and>
      distinct (map ui_id (userInteraction_rows db)) \<and>
      distinct (map ui_userId (userInteraction_rows db)) \<and>
      distinct (map comment_id (comment_rows db)))"

text \<open>The comment hangs on the interaction row of the news item \<open>nid\<close>.\<close>

definition comment_on :: "Database \<Rightarrow> string \<Rightarrow> Comment \<Rightarrow> bool" where
  "comment_on db nid c =
     list_all (\<lambda>r. ni_id r = newsInteractionId c \<longrightarrow> ni_newsId r = nid) (newsInteraction_rows db)"

text \<open>The key columns of the two interaction tables; no call changes them.\<close>

definition ni_keys :: "Database \<Rightarrow> (string \<times> string) list" where
  "ni_keys db = map (\<lambda>r. (ni_id r, ni_newsId r)) (newsInteraction_rows db)"

definition ui_keys :: "Database \<Rightarrow> (string \<times> string) list" where
  "ui_keys db = map (\<lambda>r. (ui_id r, ui_userId r)) (userInteraction_rows db)"

text \<open>What one call adds to both scores, given its result.\<close>

definition delta :: "call \<Rightarrow> error + unit \<Rightarrow> int" where
  "delta c r = (if isl r then 0 else if is_add c then 2 else - 2)"

text \<open>
  The ids of the comments in the store, and what a sequence of calls with the given
  results makes of them: a successful addition appends its new id, a successful deletion
  takes its id out, a failed call leaves the ids alone.
\<close>

definition comment_ids :: "Database \<Rightarrow> string list" where
  "comment_ids db = map comment_id (comment_rows db)"

fun ids_step :: "string list \<Rightarrow> call \<Rightarrow> error + unit \<Rightarrow> string list" where
  "ids_step ids (AddComment data newId) r = (if isl r then ids else ids @ [newId])"
| "ids_step ids (DeleteComment commentId) r =
     (if isl r then ids else filter (\<lambda>i. i \<noteq> commentId) ids)"

fun comment_ids_after :: "string list \<Rightarrow> call list \<Rightarrow> (error + unit) list \<Rightarrow> string list" where
  "comment_ids_after ids (c # cs) (r # rs) = comment_ids_after (ids_step ids c r) cs rs"
| "comment_ids_after ids cs rs = ids"

text \<open>
  The comment is linked to the interaction row of the news item \<open>nid\<close> and to the
  interaction row of the user \<open>uid\<close>.
\<close>

definition linked :: "Database \<Rightarrow> string \<Rightarrow> string \<Rightarrow> Comment \<Rightarrow> bool" where
  "linked db nid uid c =
     (map_option ni_id (newsInteraction_findFirst db nid) = Some (newsInteractionId c) \<and>
      map_option ui_id (userInteraction_findFirst db uid) = Some (userInteractionId c))"

section \<open>The dashboard\<close>

text \<open>
  A number of the host language is an IEEE 754 binary64 value: a finite double, given by
  the real number it denotes, or NaN or an infinity. The doubles with the exponent
  \<open>e\<close> are the multiples of \<open>2\<^sup>e\<^sup>-\<^sup>5\<^sup>2\<close> from \<open>2\<^sup>e\<close> to \<open>2\<^sup>e\<^sup>+\<^sup>1\<close>; below
  \<open>2\<^sup>-\<^sup>1\<^sup>0\<^sup>2\<^sup>2\<close> they are the multiples of \<open>2\<^sup>-\<^sup>1\<^sup>0\<^sup>7\<^sup>4\<close>. An operation
  computes the exact result and rounds it to the nearest double, a tie to the one with
  the even significand; a rounded magnitude of \<open>2\<^sup>1\<^sup>0\<^sup>2\<^sup>4\<close> or more is an infinity.
  The sign of zero is left out: zero is one value and a zero divisor counts as positive
  (\<^verbatim>\<open>calculateTrend\<close> on two counts never produces a negative zero).
\<close>

datatype jsnum = Num real | NaN | PosInfinity | NegInfinity

definition pow2 :: "int \<Rightarrow> real" where
  "pow2 k = (if 0 \<le> k then 2 ^ nat k else 1 / 2 ^ nat (- k))"

definition round_half_even :: "real \<Rightarrow> int" where
  "round_half_even x =
     (if x - of_int \<lfloor>x\<rfloor> < 1 / 2 then \<lfloor>x\<rfloor>
      else if x - of_int \<lfloor>x\<rfloor> > 1 / 2 then \<lfloor>x\<rfloor> + 1
      else if even \<lfloor>x\<rfloor> then \<lfloor>x\<rfloor> else \<lfloor>x\<rfloor> + 1)"

text \<open>The exponent of the doubles around \<open>x\<close>.\<close>

definition binade :: "real \<Rightarrow> int" where
  "binade x = max \<lfloor>log 2 \<bar>x\<bar>\<rfloor> (- 1022)"

text \<open>The double nearest to \<open>x\<close>, with no upper bound on the exponent.\<close>

definition nearest_double :: "real \<Rightarrow> real" where
  "nearest_double x =
     (if x = 0 then 0
      else sgn x * (of_int (round_half_even (\<bar>x\<bar> / pow2 (binade x - 52))) * pow2 (binade x - 52)))"

definition to_double :: "real \<Rightarrow> jsnum" where
  "to_double x =
     (if nearest_double x \<ge> pow2 1024 then PosInfinity
      else if nearest_double x \<le> - pow2 1024 then NegInfinity
      else Num (nearest_double x))"

text \<open>Subtraction, division and multiplication of two numbers.\<close>

fun js_sub :: "jsnum \<Rightarrow> jsnum \<Rightarrow> jsnum" where
  "js_sub (Num a) (Num b) = to_double (a - b)"
| "js_sub NaN y = NaN"
| "js_sub x NaN = NaN"
| "js_sub PosInfinity PosInfinity = NaN"
| "js_sub NegInfinity NegInfinity = NaN"
| "js_sub PosInfinity y = PosInfinity"
| "js_sub NegInfinity y = NegInfinity"
| "js_sub (Num a) PosInfinity = NegInfinity"
| "js_sub (Num a) NegInfinity = PosInfinity"

fun js_div :: "jsnum \<Rightarrow> jsnum \<Rightarrow> jsnum" where
  "js_div (Num a) (Num b) =
     (if b = 0 then (if a = 0 then NaN else if a > 0 then PosInfinity else NegInfinity)
      else to_double (a / b))"
| "js_div NaN y = NaN"
| "js_div x NaN = NaN"
| "js_div PosInfinity (Num b) = (if b < 0 then NegInfinity else PosInfinity)"
| "js_div NegInfinity (Num b) = (if b < 0 then PosInfinity else NegInfinity)"
| "js_div (Num a) PosInfinity = Num 0"
| "js_div (Num a) NegInfinity = Num 0"
| "js_div PosInfinity PosInfinity = NaN"
| "js_div PosInfinity NegInfinity = NaN"
| "js_div NegInfinity PosInfinity = NaN"
| "js_div NegInfinity NegInfinity = NaN"

fun js_mul :: "jsnum \<Rightarrow> jsnum \<Rightarrow> jsnum" where
  "js_mul (Num a) (Num b) = to_double (a * b)"
| "js_mul NaN y = NaN"
| "js_mul x NaN = NaN"
| "js_mul PosInfinity (Num b) =
     (if b = 0 then NaN else if b > 0 then PosInfinity else NegInfinity)"
| "js_mul NegInfinity (Num b) =
     (if b = 0 then NaN else if b > 0 then NegInfinity else PosInfinity)"
| "js_mul (Num a) PosInfinity =
     (if a = 0 then NaN else if a > 0 then PosInfinity else NegInfinity)"
| "js_mul (Num a) NegInfinity =
     (if a = 0 then NaN else if a > 0 then NegInfinity else PosInfinity)"
| "js_mul PosInfinity PosInfinity = PosInfinity"
| "js_mul NegInfinity NegInfinity = PosInfinity"
| "js_mul PosInfinity NegInfinity = NegInfinity"
| "js_mul NegInfinity PosInfinity = NegInfinity"

text \<open>
  \<^verbatim>\<open>calculateTrend\<close>. Both arguments are results of \<^verbatim>\<open>count\<close> queries; a count
  reaches the function as the double nearest to it, which is the count itself below
  \<open>2\<^sup>5\<^sup>3\<close>.
\<close>

definition calculateTrend :: "nat \<Rightarrow> nat \<Rightarrow> jsnum" where
  "calculateTrend current previous =
     (if to_double (real previous) = Num 0 then Num 0
      else js_mul
             (js_div (js_sub (to_double (real current)) (to_double (real previous)))
                (to_double (real previous)))
             (Num 100))"

record Metric =
  metric_value :: string
  metric_trend :: jsnum

record DashboardMetrics =
  totalNews :: Metric
  totalLikes :: Metric
  totalReaders :: Metric
  newComments :: Metric

text \<open>A row of the log table with its included user's \<^verbatim>\<open>clerkId\<close>.\<close>

record Log =
  log_id :: string
  log_user_clerkId :: "string option"
  log_action :: string
  log_createdAt :: int
  log_description :: string
  log_metadata :: string

text \<open>The profile fields read from what \<^verbatim>\<open>getClerkUser\<close> resolves to.\<close>

record ClerkUser =
  firstName :: "string option"
  lastName :: "string option"
  imageUrl :: "string option"

record ActivityUser =
  au_clerkId :: "string option"
  au_firstName :: "string option"
  au_lastName :: "string option"
  au_imageUrl :: "string option"

record Activity =
  activity_id :: string
  activity_user :: ActivityUser
  activity :: string
  activity_date :: int
  activity_description :: string
  activity_metadata :: string

record DashboardData =
  metrics :: DashboardMetrics
  activities :: "Activity list"

text \<open>What the queries of \<^verbatim>\<open>getDashboardData\<close> return.\<close>

record DashboardQueries =
  todayArticles :: nat
  yesterdayArticles :: nat
  recentActivities :: "Log list"
  todayNewComments :: nat
  yesterdayNewComments :: nat
  todayLikes :: nat
  yesterdayLikes :: nat
  totalArticles_count :: nat
  totalLikes_count :: nat
  totalReaders_count :: nat

text \<open>
  \<^verbatim>\<open>x || null\<close> on a string that may be missing: the empty string is falsy too.
\<close>

fun or_null :: "string option \<Rightarrow> string option" where
  "or_null None = None"
| "or_null (Some s) = (if s = [] then None else Some s)"

text \<open>\<^verbatim>\<open>clerkUser?.field || null\<close>.\<close>

definition profile_field :: "(ClerkUser \<Rightarrow> string option) \<Rightarrow> ClerkUser option \<Rightarrow> string option" where
  "profile_field field clerkUser =
     (case clerkUser of None \<Rightarrow> None | Some u \<Rightarrow> or_null (field u))"

text \<open>
  The callback mapped over the log entries, with its \<^verbatim>\<open>try\<close> and
  \<^verbatim>\<open>catch\<close>. \<open>getClerkUser\<close> is the identity provider: \<^const>\<open>Inl\<close> is a
  lookup that throws. \<open>formatLogAction\<close> stands for the \<^verbatim>\<open>switch\<close> over
  \<^verbatim>\<open>LOG_ACTIONS\<close>, whose values are declared outside these sources.
\<close>

definition format_activity ::
  "(string option \<Rightarrow> error + ClerkUser option) \<Rightarrow> (string \<Rightarrow> string) \<Rightarrow> Log \<Rightarrow> error + Activity" where
  "format_activity getClerkUser formatLogAction entry =
     (case getClerkUser (log_user_clerkId entry) of
        Inr clerkUser \<Rightarrow>
          Inr \<lparr>activity_id = log_id entry,
               activity_user =
                 \<lparr>au_clerkId = log_user_clerkId entry,
                  au_firstName = profile_field firstName clerkUser,
                  au_lastName = profile_field lastName clerkUser,
                  au_imageUrl = profile_field imageUrl clerkUser\<rparr>,
               activity = formatLogAction (log_action entry),
               activity_date = log_createdAt entry,
               activity_description = log_description entry,
               activity_metadata = log_metadata entry\<rparr>
      | Inl e \<Rightarrow>
          Inr \<lparr>activity_id = log_id entry,
               activity_user =
                 \<lparr>au_clerkId = log_user_clerkId entry,
                  au_firstName = None, au_lastName = None, au_imageUrl = None\<rparr>,
               activity = formatLogAction (log_action entry),
               activity_date = log_createdAt entry,
               activity_description = log_description entry,
               activity_metadata = log_metadata entry\<rparr>)"

text \<open>\<^verbatim>\<open>Promise.all\<close>: every value in order, or the first rejection.\<close>

fun promise_all :: "(error + 'a) list \<Rightarrow> error + 'a list" where
  "promise_all [] = Inr []"
| "promise_all (Inl e # ps) = Inl e"
| "promise_all (Inr x # ps) = (case promise_all ps of Inl e \<Rightarrow> Inl e | Inr xs \<Rightarrow> Inr (x # xs))"

definition getDashboardData ::
  "DashboardQueries \<Rightarrow> (string option \<Rightarrow> error + ClerkUser option) \<Rightarrow> (string \<Rightarrow> string)
     \<Rightarrow> error + DashboardData" where
  "getDashboardData q getClerkUser formatLogAction =
     (let articlesTrend = calculateTrend (todayArticles q) (yesterdayArticles q);
          commentsTrend = calculateTrend (todayNewComments q) (yesterdayNewComments q);
          likesTrend = calculateTrend (todayLikes q) (yesterdayLikes q)
      in case promise_all (map (format_activity getClerkUser formatLogAction) (recentActivities q)) of
           Inl e \<Rightarrow> Inl e
         | Inr acts \<Rightarrow>
             Inr \<lparr>metrics =
                    \<lparr>totalNews =
                       \<lparr>metric_value = string_of_nat (totalArticles_count q),
                        metric_trend = articlesTrend\<rparr>,
                     totalLikes =
                       \<lparr>metric_value = string_of_nat (totalLikes_count q),
                        metric_trend = likesTrend\<rparr>,
                     totalReaders =
                       \<lparr>metric_value = string_of_nat (totalReaders_count q),
                        metric_trend = calculateTrend (todayArticles q) (yesterdayArticles q)\<rparr>,
                     newComments =
                       \<lparr>metric_value = string_of_nat (todayNewComments q),
                        metric_trend = commentsTrend\<rparr>\<rparr>,
                  activities = acts\<rparr>)"

section \<open>Example data\<close>

text \<open>
  A store with one news item that alice has commented on once, a sequence of calls (the
  last one names a comment that does not exist), and the results of the dashboard's queries with an identity provider that knows one of the
  two users.
\<close>

definition example_db :: Database where
  "example_db =
     \<lparr>newsInteraction_rows = [\<lparr>ni_id = ''ni1'', ni_newsId = ''n1'', popularityScore = 2\<rparr>],
      userInteraction_rows =
        [\<lparr>ui_id = ''ui1'', ui_userId = ''alice'', contributionScore = 2\<rparr>,
         \<lparr>ui_id = ''ui2'', ui_userId = ''bob'', contributionScore = 0\<rparr>],
      comment_rows =
        [\<lparr>comment_id = ''c1'', comment_text = ''first'', newsInteractionId = ''ni1'',
          userInteractionId = ''ui1''\<rparr>]\<rparr>"

definition example_calls :: "call list" where
  "example_calls =
     [AddComment \<lparr>input_text = ''second'', input_newsId = ''n1''\<rparr> ''c2'',
      DeleteComment ''c1'',
      AddComment \<lparr>input_text = ''third'', input_newsId = ''n1''\<rparr> ''c3'',
      DeleteComment ''c9'']"

definition example_queries :: DashboardQueries where
  "example_queries =
     \<lparr>todayArticles = 10, yesterdayArticles = 5,
      recentActivities =
        [\<lparr>log_id = ''l1'', log_user_clerkId = Some ''gone'', log_action = ''news.created'',
          log_createdAt = 2, log_description = ''d1'', log_metadata = ''{}''\<rparr>,
         \<lparr>log_id = ''l2'', log_user_clerkId = Some ''ada'', log_action = ''comment.added'',
          log_createdAt = 1, log_description = ''d2'', log_metadata = ''{}''\<rparr>],
      todayNewComments = 0, yesterdayNewComments = 0, todayLikes = 3, yesterdayLikes = 4,
      totalArticles_count = 15, totalLikes_count = 7, totalReaders_count = 2\<rparr>"

definition example_getClerkUser :: "string option \<Rightarrow> error + ClerkUser option" where
  "example_getClerkUser clerkId =
     (if clerkId = Some ''ada''
      then Inr (Some \<lparr>firstName = Some ''Ada'', lastName = Some ''Lovelace'',
                      imageUrl = Some ''a.png''\<rparr>)
      else Inl (Error ''lookup failed''))"

section \<open>Properties of the path generator\<close>

lemma new_PathGenerator_simps:
  "maxLength (new_PathGenerator ps n) = n"
  "separator (new_PathGenerator ps n) = CHR ''-''"
  "existingPaths (new_PathGenerator ps n) = fset_of_list ps"
  by (simp_all add: new_PathGenerator_def)

lemma slugify_separator:
  "separator g = separator g' \<Longrightarrow> slugify g t = slugify g' t"
  by (simp add: slugify_def)

lemma string_of_nat_1: "string_of_nat (Suc 0) = ''1''"
  by code_simp

lemma makeUnique_free:
  "length b \<le> maxLength g \<Longrightarrow> b |\<notin>| existingPaths g \<Longrightarrow> makeUnique g b = b"
  by (simp add: makeUnique_def makeUnique_loop.simps)

lemma makeUnique_truncated:
  "length b > maxLength g \<Longrightarrow> take (maxLength g - 3) b |\<notin>| existingPaths g \<Longrightarrow>
     makeUnique g b = take (maxLength g - 3) b"
  by (simp add: makeUnique_def makeUnique_loop.simps)

subsection \<open>Numbering while the numbered path fits\<close>

lemma makeUnique_loop_numbering:
  assumes "\<forall>j. c \<le> j \<and> j < n \<longrightarrow> b @ separator g # string_of_nat j |\<in>| existingPaths g"
    and "b @ separator g # string_of_nat n |\<notin>| existingPaths g"
    and "\<forall>j. c \<le> j \<and> j \<le> n \<longrightarrow> length (b @ separator g # string_of_nat j) \<le> maxLength g"
    and "c \<le> n"
  shows "makeUnique_loop g b (c + 1) (b @ separator g # string_of_nat c)
           = b @ separator g # string_of_nat n"
  using assms
proof (induction "n - c" arbitrary: c)
  case 0
  then have "c = n" by simp
  with 0 show ?case by (subst makeUnique_loop.simps) simp
next
  case (Suc d)
  then have lt: "c < n" by simp
  with Suc.prems have "b @ separator g # string_of_nat c |\<in>| existingPaths g"
    and "length (b @ separator g # string_of_nat (c + 1)) \<le> maxLength g"
    by simp_all
  moreover have "makeUnique_loop g b (c + 1 + 1) (b @ separator g # string_of_nat (c + 1))
           = b @ separator g # string_of_nat n"
    using Suc.hyps(2) Suc.prems lt by (intro Suc.hyps(1)) auto
  ultimately show ?case
    by (subst makeUnique_loop.simps) simp
qed

text \<open>
  A base that is in use gets the first free number from 1 on, as long as every numbered
  path up to it fits the maximal length.
\<close>

lemma makeUnique_numbering:
  assumes "length b \<le> maxLength g" "b |\<in>| existingPaths g" "1 \<le> n"
    and "\<forall>j. 1 \<le> j \<and> j < n \<longrightarrow> b @ separator g # string_of_nat j |\<in>| existingPaths g"
    and "b @ separator g # string_of_nat n |\<notin>| existingPaths g"
    and "\<forall>j. 1 \<le> j \<and> j \<le> n \<longrightarrow> length (b @ separator g # string_of_nat j) \<le> maxLength g"
  shows "makeUnique g b = b @ separator g # string_of_nat n"
proof -
  from assms(3,6) have "length (b @ separator g # string_of_nat 1) \<le> maxLength g"
    by simp
  then have "makeUnique g b = makeUnique_loop g b (1 + 1) (b @ separator g # string_of_nat 1)"
    using assms(1,2)
    by (simp add: makeUnique_def makeUnique_loop.simps[of g b "Suc 0" b])
  also have "\<dots> = b @ separator g # string_of_nat n"
    using assms(3-6) by (intro makeUnique_loop_numbering) simp_all
  finally show ?thesis .
qed

lemma makeUnique_first_collision:
  assumes "length b \<le> maxLength g" "b |\<in>| existingPaths g"
    and "length (b @ separator g # string_of_nat 1) \<le> maxLength g"
    and "b @ separator g # string_of_nat 1 |\<notin>| existingPaths g"
  shows "makeUnique g b = b @ separator g # string_of_nat 1"
  using assms by (intro makeUnique_numbering) (auto simp: le_Suc_eq)

subsection \<open>The examples of the specification\<close>

text \<open>
  C8: the slug of the title "Hello, World!" is "hello-world"; and a title whose base slug
  is "breaking-news", generated against a used set that holds "breaking-news" (and not yet
  "breaking-news-1"), gets the slug "breaking-news-1".
\<close>

theorem slug_examples:
  "slugify (new_PathGenerator ps n) ''Hello, World!'' = ''hello-world'' \<and>
   (\<forall>title. slugify (new_PathGenerator ps default_maxLength) title = ''breaking-news''
      \<and> ''breaking-news'' \<in> set ps \<and> ''breaking-news-1'' \<notin> set ps
      \<longrightarrow> fst (generatePath (new_PathGenerator ps default_maxLength) title)
            = ''breaking-news-1'')"
proof (intro conjI allI impI)
  have "slugify (new_PathGenerator [] 0) ''Hello, World!'' = ''hello-world''"
    by code_simp
  then show "slugify (new_PathGenerator ps n) ''Hello, World!'' = ''hello-world''"
    using slugify_separator[of "new_PathGenerator ps n" "new_PathGenerator [] 0"]
    by (simp add: new_PathGenerator_simps)
next
  fix title
  let ?g = "new_PathGenerator ps default_maxLength"
  assume a: "slugify ?g title = ''breaking-news'' \<and> ''breaking-news'' \<in> set ps
      \<and> ''breaking-news-1'' \<notin> set ps"
  have "makeUnique ?g ''breaking-news'' = ''breaking-news'' @ separator ?g # string_of_nat 1"
    using a by (intro makeUnique_first_collision)
      (simp_all add: new_PathGenerator_simps default_maxLength_def string_of_nat_1
         fset_of_list.rep_eq)
  then show "fst (generatePath ?g title) = ''breaking-news-1''"
    using a by (simp add: generatePath_def Let_def new_PathGenerator_simps string_of_nat_1)
qed

theorem slug_examples_witness:
  "slugify (new_PathGenerator [''breaking-news''] default_maxLength) ''Breaking News''
     = ''breaking-news''
   \<and> ''breaking-news'' \<in> set [''breaking-news'']
   \<and> ''breaking-news-1'' \<notin> set [''breaking-news'']
   \<and> fst (generatePath (new_PathGenerator [''breaking-news''] default_maxLength)
          ''Breaking News'') = ''breaking-news-1''"
proof -
  have h: "slugify (new_PathGenerator [''breaking-news''] default_maxLength) ''Breaking News''
             = ''breaking-news''"
    by code_simp
  have m: "''breaking-news'' \<in> set [''breaking-news'']
             \<and> ''breaking-news-1'' \<notin> set [''breaking-news'']"
    by simp
  from slug_examples[of "[''breaking-news'']" 0] h m
  show ?thesis by blast
qed

subsection \<open>Long bases\<close>

text \<open>
  C10: when the base slug of a title is longer than the maximal length, the base is cut
  to the maximal length minus 3 (97 for the default 100) before the first collision check;
  if the cut base is not in use, it is the generated slug, of length 97 and not 100.
\<close>

theorem long_base_truncated:
  assumes "length (slugify g title) > maxLength g"
    and "take (maxLength g - 3) (slugify g title) |\<notin>| existingPaths g"
  shows "fst (generatePath g title) = take (maxLength g - 3) (slugify g title)
       \<and> length (fst (generatePath g title)) = maxLength g - 3"
  using assms by (simp add: generatePath_def Let_def makeUnique_truncated)

theorem long_base_truncated_witness:
  "length (slugify (new_PathGenerator [] 100) (replicate 101 CHR ''a''))
     > maxLength (new_PathGenerator [] 100)
   \<and> take (maxLength (new_PathGenerator [] 100) - 3)
        (slugify (new_PathGenerator [] 100) (replicate 101 CHR ''a''))
        |\<notin>| existingPaths (new_PathGenerator [] 100)
   \<and> fst (generatePath (new_PathGenerator [] 100) (replicate 101 CHR ''a''))
        = replicate 97 CHR ''a''
   \<and> length (fst (generatePath (new_PathGenerator [] 100) (replicate 101 CHR ''a''))) = 97"
proof -
  let ?g = "new_PathGenerator [] 100"
  let ?t = "replicate 101 CHR ''a''"
  have s: "slugify ?g ?t = replicate 101 CHR ''a''"
    by code_simp
  have h1: "length (slugify ?g ?t) > maxLength ?g"
    by (simp add: s new_PathGenerator_simps)
  have h2: "take (maxLength ?g - 3) (slugify ?g ?t) |\<notin>| existingPaths ?g"
    by (simp add: new_PathGenerator_simps)
  from long_base_truncated[OF h1 h2] h1 h2 show ?thesis
    by (simp add: s new_PathGenerator_simps)
qed

subsection \<open>Updating a news item\<close>

text \<open>
  C5: when the slugified form of the new title is the item's current slug (a generated
  slug, so of length at most 100), \<^verbatim>\<open>updateNews\<close> computes the same slug again, with
  no number appended, whatever other paths the table holds: the item's own path is
  filtered out of the set before the generator runs.
\<close>

theorem update_keeps_own_slug:
  assumes "slug_of title = currentPath"
    and "length currentPath \<le> default_maxLength"
  shows "updateNews_path allPaths (Some currentPath) title = currentPath"
proof -
  let ?g = "new_PathGenerator (filter (\<lambda>p. p \<noteq> currentPath) allPaths) default_maxLength"
  have u: "updateNews_path allPaths (Some currentPath) title = fst (generatePath ?g title)"
    by (simp add: updateNews_path_def Let_def)
  have s: "slugify ?g title = currentPath"
    using assms(1) slugify_separator[of ?g "new_PathGenerator [] default_maxLength" title]
    by (simp add: slug_of_def new_PathGenerator_simps)
  have "makeUnique ?g currentPath = currentPath"
    using assms(2)
    by (intro makeUnique_free) (simp_all add: new_PathGenerator_simps fset_of_list.rep_eq)
  then show ?thesis
    unfolding u by (simp add: generatePath_def Let_def s)
qed

theorem update_keeps_own_slug_witness:
  "slug_of ''Breaking News'' = ''breaking-news''
   \<and> length ''breaking-news'' \<le> default_maxLength
   \<and> updateNews_path [''hello-world'', ''breaking-news''] (Some ''breaking-news'')
        ''Breaking News'' = ''breaking-news''"
proof -
  have h1: "slug_of ''Breaking News'' = ''breaking-news''" by code_simp
  have h2: "length ''breaking-news'' \<le> default_maxLength" by (simp add: default_maxLength_def)
  from update_keeps_own_slug[OF h1 h2, of "[''hello-world'', ''breaking-news'']"] h1 h2
  show ?thesis by blast
qed

subsection \<open>Numbering when the numbered path is too long\<close>

text \<open>
  C4: a base of 100 characters that is in use. The path with the number 1 is 102
  characters long, so the base is cut; the suffix then carries the counter after its
  increment: the generated slug ends in "-2", although the cut base with "-1" is free and
  fits the maximal length.
\<close>

theorem retruncation_skips_a_number:
  "fst (generatePath (new_PathGenerator [replicate 100 CHR ''a''] default_maxLength)
          (replicate 100 CHR ''a''))
     = replicate 98 CHR ''a'' @ ''-2''
   \<and> replicate 98 CHR ''a'' @ ''-1''
       |\<notin>| existingPaths (new_PathGenerator [replicate 100 CHR ''a''] default_maxLength)
   \<and> length (replicate 98 CHR ''a'' @ ''-1'') \<le> default_maxLength"
  by code_simp

subsection \<open>A batch of titles\<close>

text \<open>The digits of a number read back give the number, and they are digits.\<close>

lemma nat_of_digits_string_of_nat: "nat_of_digits (string_of_nat n) = n"
proof (induction n rule: string_of_nat.induct)
  case (1 n)
  show ?case
  proof (cases "n < 10")
    case True
    then show ?thesis
      by (simp add: string_of_nat.simps nat_of_digits_def code_unit_def)
  next
    case False
    with 1 have "nat_of_digits (string_of_nat (n div 10)) = n div 10" by simp
    moreover have "(48 + n mod 10) mod 256 = 48 + n mod 10"
      by (intro mod_less) (simp add: less_le_trans[OF add_strict_left_mono[OF pos_mod_bound]])
    ultimately show ?thesis using False
      by (simp add: string_of_nat.simps[of n] nat_of_digits_def code_unit_def)
  qed
qed

lemma digits_string_of_nat: "c \<in> set (string_of_nat n) \<Longrightarrow> is_digit c"
proof (induction n rule: string_of_nat.induct)
  case (1 n)
  show ?case
  proof (cases "n < 10")
    case True
    with 1(2) show ?thesis
      by (simp add: string_of_nat.simps is_digit_def code_unit_def)
  next
    case False
    have m: "(48 + n mod 10) mod 256 = 48 + n mod 10"
      by (intro mod_less) (simp add: less_le_trans[OF add_strict_left_mono[OF pos_mod_bound]])
    from 1(2) False have "c \<in> set (string_of_nat (n div 10)) \<or> c = char_of (48 + n mod 10)"
      by (auto simp add: string_of_nat.simps[of n])
    then show ?thesis
    proof
      assume "c \<in> set (string_of_nat (n div 10))"
      with 1(1) False show ?thesis by simp
    next
      assume "c = char_of (48 + n mod 10)"
      then show ?thesis by (simp add: is_digit_def code_unit_def m)
    qed
  qed
qed

lemma number_tail_numbered:
  assumes "\<not> is_digit sep"
  shows "number_tail sep (p @ sep # string_of_nat n) = n"
proof -
  have "\<And>c. c \<in> set (rev (string_of_nat n)) \<Longrightarrow> c \<noteq> sep"
    using assms digits_string_of_nat by auto
  then have "takeWhile (\<lambda>c. c \<noteq> sep) (rev (string_of_nat n) @ sep # rev p) = rev (string_of_nat n)"
    by (subst takeWhile_append2) auto
  then show ?thesis
    by (simp add: number_tail_def nat_of_digits_string_of_nat)
qed

text \<open>The path the loop returns is not in use.\<close>

lemma makeUnique_loop_fresh: "makeUnique_loop g path counter finalPath |\<notin>| existingPaths g"
proof (induction g path counter finalPath rule: makeUnique_loop.induct)
  case (1 g path counter finalPath)
  then show ?case
    by (subst makeUnique_loop.simps) simp
qed

lemma below_le: "below g k \<le> fcard (existingPaths g)"
  unfolding below_def fcard.rep_eq by (intro card_mono) auto

lemma below_mono: "k \<le> k' \<Longrightarrow> below g k \<le> below g k'"
  unfolding below_def by (intro card_mono) auto

lemma below_Suc:
  assumes "\<not> is_digit (separator g)"
    and "p @ separator g # string_of_nat n |\<in>| existingPaths g"
  shows "below g n < below g (Suc n)"
proof -
  let ?s = "p @ separator g # string_of_nat n"
  let ?A = "{s \<in> fset (existingPaths g). number_tail (separator g) s < n}"
  let ?B = "{s \<in> fset (existingPaths g). number_tail (separator g) s < Suc n}"
  have t: "number_tail (separator g) ?s = n"
    using assms(1) by (rule number_tail_numbered)
  have fA: "finite ?A" and fB: "finite ?B" by simp_all
  have "?s \<notin> ?A" using t by simp
  then have "card (insert ?s ?A) = Suc (card ?A)"
    using fA by (rule card_insert_disjoint[rotated])
  moreover have "insert ?s ?A \<subseteq> ?B" using t assms(2) by auto
  then have "card (insert ?s ?A) \<le> card ?B"
    using fB by (intro card_mono)
  ultimately show ?thesis by (simp add: below_def)
qed

lemma string_of_nat_length: "n < 10 ^ k \<Longrightarrow> 0 < k \<Longrightarrow> length (string_of_nat n) \<le> k"
proof (induction n arbitrary: k rule: string_of_nat.induct)
  case (1 n)
  show ?case
  proof (cases "n < 10")
    case True
    with 1(3) show ?thesis by (simp add: string_of_nat.simps)
  next
    case False
    obtain j where k: "k = Suc j" using 1(3) by (cases k) auto
    have "j \<noteq> 0" using False 1(2) k by (cases j) auto
    moreover have "n div 10 < 10 ^ j" using 1(2) k by (simp add: less_mult_imp_div_less mult.commute)
    ultimately have "length (string_of_nat (n div 10)) \<le> j"
      using 1(1)[OF False, of j] by simp
    then show ?thesis using False k by (simp add: string_of_nat.simps[of n])
  qed
qed

lemma loop_inv_counter: "loop_inv g path c fp \<Longrightarrow> c \<le> 2 * fcard (existingPaths g) + 3"
  using below_le[of g "c - 1"] below_le[of g c]
  by (auto simp: loop_inv_def)

lemma loop_inv_keep:
  assumes "loop_inv g path c fp" "fp |\<in>| existingPaths g" "\<not> is_digit (separator g)"
    and "\<not> length (path @ separator g # string_of_nat c) > maxLength g"
  shows "loop_inv g path (c + 1) (path @ separator g # string_of_nat c)"
proof -
  have "c + 1 \<le> 2 * below g c + 3"
  proof -
    consider "c = 1"
      | "2 \<le> c" "fp = path @ separator g # string_of_nat (c - 1)" "c \<le> 2 * below g (c - 1) + 3"
      | "2 \<le> c" "c \<le> 2 * below g c + 2"
      using assms(1) by (auto simp: loop_inv_def)
    then show ?thesis
    proof cases
      case 1 then show ?thesis by simp
    next
      case 2
      from below_Suc[OF assms(3), of path "c - 1"] assms(2) 2(1,2)
      have "below g (c - 1) < below g c" by simp
      with 2(3) show ?thesis by linarith
    next
      case 3 then show ?thesis by simp
    qed
  qed
  with assms(4) show ?thesis by (auto simp add: loop_inv_def)
qed

lemma loop_inv_cut:
  assumes "loop_inv g path c fp" "fp |\<in>| existingPaths g" "\<not> is_digit (separator g)"
    and "length (path @ separator g # string_of_nat c) > maxLength g"
    and "length (separator g # string_of_nat (c + 1)) \<le> maxLength g"
  shows "loop_inv g (take (maxLength g - length (separator g # string_of_nat (c + 1))) path)
           (c + 1)
           (take (maxLength g - length (separator g # string_of_nat (c + 1))) path
              @ separator g # string_of_nat (c + 1))"
proof -
  have "c + 1 \<le> 2 * below g (c + 1) + 2"
  proof -
    consider "c = 1"
      | "2 \<le> c" "fp = path @ separator g # string_of_nat (c - 1)" "c \<le> 2 * below g (c - 1) + 3"
      | "fp = path @ separator g # string_of_nat c" "length fp \<le> maxLength g"
      using assms(1) by (auto simp: loop_inv_def)
    then show ?thesis
    proof cases
      case 1 then show ?thesis by simp
    next
      case 2
      from below_Suc[OF assms(3), of path "c - 1"] assms(2) 2(1,2)
      have "below g (c - 1) < below g c" by simp
      moreover have "below g c \<le> below g (c + 1)" by (rule below_mono) simp
      ultimately show ?thesis using 2(3) by linarith
    next
      case 3 with assms(4) show ?thesis by simp
    qed
  qed
  moreover have "length (take (maxLength g - length (separator g # string_of_nat (c + 1))) path
              @ separator g # string_of_nat (c + 1)) \<le> maxLength g"
    using assms(5) by simp
  ultimately show ?thesis by (auto simp add: loop_inv_def)
qed

lemma makeUnique_loop_length:
  "loop_inv g path c fp \<Longrightarrow> \<not> is_digit (separator g) \<Longrightarrow>
   2 * fcard (existingPaths g) + 4 < 10 ^ (maxLength g - 1) \<Longrightarrow>
   length (makeUnique_loop g path c fp) \<le> maxLength g"
proof (induction g path c fp rule: makeUnique_loop.induct)
  case (1 g path counter finalPath)
  note inv = \<open>loop_inv g path counter finalPath\<close>
  show ?case
  proof (cases "finalPath |\<in>| existingPaths g")
    case False
    with inv show ?thesis
      by (subst makeUnique_loop.simps) (simp add: loop_inv_def)
  next
    case True
    show ?thesis
    proof (cases "length (path @ separator g # string_of_nat counter) > maxLength g")
      case False
      from loop_inv_keep[OF inv True 1(4) False]
      have "length (makeUnique_loop g path (counter + 1)
              (path @ separator g # string_of_nat counter)) \<le> maxLength g"
        using 1(2)[OF True False] 1(4) 1(5) by simp
      with True False show ?thesis
        by (subst makeUnique_loop.simps) simp
    next
      case over: True
      have "counter + 1 < 10 ^ (maxLength g - 1)"
        using loop_inv_counter[OF inv] 1(5) by linarith
      moreover have "0 < maxLength g - 1"
        using 1(5) by (cases "maxLength g - 1") auto
      ultimately have "length (string_of_nat (counter + 1)) \<le> maxLength g - 1"
        by (rule string_of_nat_length)
      then have fits: "length (separator g # string_of_nat (counter + 1)) \<le> maxLength g"
        using \<open>0 < maxLength g - 1\<close> by simp
      from loop_inv_cut[OF inv True 1(4) over fits]
      have "length (makeUnique_loop g
              (take (maxLength g - length (separator g # string_of_nat (counter + 1))) path)
              (counter + 1)
              (take (maxLength g - length (separator g # string_of_nat (counter + 1))) path
                 @ separator g # string_of_nat (counter + 1))) \<le> maxLength g"
        using 1(1)[OF True over] 1(4) 1(5) by simp
      with True over show ?thesis
        by (subst makeUnique_loop.simps) simp
    qed
  qed
qed

lemma makeUnique_fresh: "makeUnique g b |\<notin>| existingPaths g"
  by (simp add: makeUnique_def Let_def makeUnique_loop_fresh)

lemma makeUnique_length:
  assumes "\<not> is_digit (separator g)"
    and "2 * fcard (existingPaths g) + 4 < 10 ^ (maxLength g - 1)"
  shows "length (makeUnique g b) \<le> maxLength g"
proof -
  let ?path = "if length b > maxLength g then take (maxLength g - 3) b else b"
  have "loop_inv g ?path 1 ?path" by (simp add: loop_inv_def)
  from makeUnique_loop_length[OF this assms] show ?thesis
    by (simp add: makeUnique_def Let_def)
qed

lemma generatePath_calls_fresh:
  "generatePath_calls g titles = (slugs, g') \<Longrightarrow>
     distinct slugs \<and> (\<forall>s\<in>set slugs. s |\<notin>| existingPaths g)
     \<and> existingPaths g' = existingPaths g |\<union>| fset_of_list slugs"
proof (induction titles arbitrary: g slugs g')
  case Nil
  then show ?case by simp
next
  case (Cons t ts)
  obtain p g1 where c1: "generatePath g t = (p, g1)" by (cases "generatePath g t")
  obtain ps g2 where c2: "generatePath_calls g1 ts = (ps, g2)" by (cases "generatePath_calls g1 ts")
  from Cons.prems c1 c2 have r: "slugs = p # ps" "g' = g2" by simp_all
  from c1 have p: "p = makeUnique g (slugify g t)"
    and g1: "existingPaths g1 = finsert p (existingPaths g)"
    by (auto simp: generatePath_def Let_def)
  from Cons.IH[OF c2] have ih: "distinct ps" "\<forall>s\<in>set ps. s |\<notin>| existingPaths g1"
    "existingPaths g2 = existingPaths g1 |\<union>| fset_of_list ps" by simp_all
  have "p |\<notin>| existingPaths g" unfolding p by (rule makeUnique_fresh)
  moreover have "p \<notin> set ps" using ih(2) g1 by auto
  moreover have "\<forall>s\<in>set ps. s |\<notin>| existingPaths g" using ih(2) g1 by auto
  ultimately show ?case using ih(1,3) g1 r by auto
qed

lemma generatePath_calls_length:
  "generatePath_calls g titles = (slugs, g') \<Longrightarrow> \<not> is_digit (separator g) \<Longrightarrow>
   2 * (fcard (existingPaths g) + length titles) + 2 < 10 ^ (maxLength g - 1) \<Longrightarrow>
   \<forall>s\<in>set slugs. length s \<le> maxLength g"
proof (induction titles arbitrary: g slugs g')
  case Nil
  then show ?case by simp
next
  case (Cons t ts)
  obtain p g1 where c1: "generatePath g t = (p, g1)" by (cases "generatePath g t")
  obtain ps g2 where c2: "generatePath_calls g1 ts = (ps, g2)" by (cases "generatePath_calls g1 ts")
  from Cons.prems(1) c1 c2 have r: "slugs = p # ps" by simp
  from c1 have p: "p = makeUnique g (slugify g t)"
    and g1: "existingPaths g1 = finsert p (existingPaths g)"
       "separator g1 = separator g" "maxLength g1 = maxLength g"
    by (auto simp: generatePath_def Let_def)
  have "length p \<le> maxLength g"
    unfolding p using Cons.prems(2,3) by (intro makeUnique_length) simp_all
  moreover have "fcard (existingPaths g1) \<le> Suc (fcard (existingPaths g))"
    unfolding g1 by (simp add: fcard_finsert_if)
  then have "\<forall>s\<in>set ps. length s \<le> maxLength g1"
    using Cons.prems(2,3) g1 by (intro Cons.IH[OF c2]) simp_all
  ultimately show ?case using r g1 by simp
qed

text \<open>
  C2: the slugs that a sequence of \<^verbatim>\<open>generatePath\<close> calls on one generator returns,
  for any titles, equal or colliding ones too, are pairwise different (and differ from the
  paths the generator started with), and each has length at most 100. The bound on the
  number of paths keeps the counter below \<open>10\<^sup>2\<^sup>1\<close>, where the source prints a number
  by its decimal digits.
\<close>

theorem batch_slugs_distinct_and_short:
  assumes "slugs = fst (generatePath_calls (new_PathGenerator paths default_maxLength) titles)"
    and "length paths + length titles < 10 ^ 20"
  shows "distinct slugs \<and> (\<forall>s\<in>set slugs. s \<notin> set paths \<and> length s \<le> 100)"
proof -
  let ?g = "new_PathGenerator paths default_maxLength"
  obtain g' where run: "generatePath_calls ?g titles = (slugs, g')"
    using assms(1) by (cases "generatePath_calls ?g titles") simp
  have sep: "\<not> is_digit (separator ?g)"
    by (simp add: new_PathGenerator_simps is_digit_def code_unit_def)
  have "fcard (existingPaths ?g) \<le> length paths"
    by (simp add: new_PathGenerator_simps fcard.rep_eq fset_of_list.rep_eq card_length)
  then have "fcard (existingPaths ?g) + length titles < 10 ^ 20"
    using assms(2) by (rule le_less_trans[OF add_right_mono])
  then have "2 * (fcard (existingPaths ?g) + length titles) + 2 < 2 * 10 ^ 20 + (2::nat)"
    by simp
  also have "\<dots> < 10 ^ 99"
    by simp
  finally have b: "2 * (fcard (existingPaths ?g) + length titles) + 2 < 10 ^ (maxLength ?g - 1)"
    by (simp add: new_PathGenerator_simps default_maxLength_def)
  from generatePath_calls_length[OF run sep b]
  have "\<forall>s\<in>set slugs. length s \<le> 100"
    by (simp add: new_PathGenerator_simps default_maxLength_def)
  moreover from generatePath_calls_fresh[OF run]
  have "distinct slugs" "\<forall>s\<in>set slugs. s \<notin> set paths"
    by (simp_all add: new_PathGenerator_simps fset_of_list.rep_eq)
  ultimately show ?thesis by simp
qed

theorem batch_slugs_distinct_and_short_witness:
  "[''a-1'', ''a-2'']
     = fst (generatePath_calls (new_PathGenerator [''a''] default_maxLength) [''A'', ''a''])
   \<and> length [''a''] + length [''A'', ''a''] < (10::nat) ^ 20
   \<and> distinct [''a-1'', ''a-2'']
   \<and> ''a-1'' \<notin> set [''a''] \<and> length ''a-1'' \<le> 100
   \<and> ''a-2'' \<notin> set [''a''] \<and> length ''a-2'' \<le> 100"
proof -
  have h1: "[''a-1'', ''a-2'']
     = fst (generatePath_calls (new_PathGenerator [''a''] default_maxLength) [''A'', ''a''])"
    by code_simp
  have h2: "length [''a''] + length [''A'', ''a''] < (10::nat) ^ 20"
    by simp
  from batch_slugs_distinct_and_short[OF h1 h2] h1 h2 show ?thesis by simp
qed

section \<open>Properties of the comment actions\<close>

lemma find_map_same:
  "(\<And>x. P (f x) = P x) \<Longrightarrow> find P (map f xs) = map_option f (find P xs)"
  by (induction xs) simp_all

lemma find_SomeD: "find P xs = Some r \<Longrightarrow> r \<in> set xs \<and> P r"
  by (induction xs) (auto split: if_splits)

lemma find_by_key:
  assumes "distinct (map key xs)" "x \<in> set xs"
  shows "find (\<lambda>r. key r = key x) xs = Some x"
  using assms by (induction xs) (auto simp: image_iff)

lemma well_formed_keys:
  "well_formed db =
     (distinct (map fst (ni_keys db)) \<and> distinct (map snd (ni_keys db)) \<and>
      distinct (map fst (ui_keys db)) \<and> distinct (map snd (ui_keys db)) \<and>
      distinct (comment_ids db))"
  by (simp add: well_formed_def ni_keys_def ui_keys_def comment_ids_def comp_def)

lemma linked_keys:
  "linked db nid uid c =
     (map_option fst (find (\<lambda>k. snd k = nid) (ni_keys db)) = Some (newsInteractionId c) \<and>
      map_option fst (find (\<lambda>k. snd k = uid) (ui_keys db)) = Some (userInteractionId c))"
proof -
  have a: "map_option ni_id (find (\<lambda>r. ni_newsId r = nid) xs)
          = map_option fst (find (\<lambda>k. snd k = nid) (map (\<lambda>r. (ni_id r, ni_newsId r)) xs))" for xs
    by (induction xs) simp_all
  have b: "map_option ui_id (find (\<lambda>r. ui_userId r = uid) ys)
          = map_option fst (find (\<lambda>k. snd k = uid) (map (\<lambda>r. (ui_id r, ui_userId r)) ys))" for ys
    by (induction ys) simp_all
  show ?thesis
    unfolding linked_def newsInteraction_findFirst_def userInteraction_findFirst_def
      ni_keys_def ui_keys_def a b by (rule refl)
qed

lemma filter_absent: "x \<notin> set xs \<Longrightarrow> filter (\<lambda>y. y \<noteq> x) xs = xs"
  by (induction xs) auto

lemma length_filter_distinct:
  "distinct xs \<Longrightarrow> x \<in> set xs \<Longrightarrow> Suc (length (filter (\<lambda>y. y \<noteq> x) xs)) = length xs"
  by (induction xs) (auto simp: filter_absent)

lemma comment_on_keys:
  "comment_on db nid c = (\<forall>k\<in>set (ni_keys db). fst k = newsInteractionId c \<longrightarrow> snd k = nid)"
  by (simp add: comment_on_def ni_keys_def list_all_iff)

lemma newsInteraction_increment_Inr:
  assumes "newsInteraction_increment db i k = Inr db'"
  shows "newsInteraction_rows db' =
           map (\<lambda>r. if ni_id r = i then r\<lparr>popularityScore := popularityScore r + k\<rparr> else r)
             (newsInteraction_rows db)"
    and "userInteraction_rows db' = userInteraction_rows db"
    and "comment_rows db' = comment_rows db"
    and "\<exists>r\<in>set (newsInteraction_rows db). ni_id r = i"
  using assms by (auto simp: newsInteraction_increment_def find_None_iff split: if_splits)

lemma userInteraction_increment_Inr:
  assumes "userInteraction_increment db i k = Inr db'"
  shows "userInteraction_rows db' =
           map (\<lambda>r. if ui_id r = i then r\<lparr>contributionScore := contributionScore r + k\<rparr> else r)
             (userInteraction_rows db)"
    and "newsInteraction_rows db' = newsInteraction_rows db"
    and "comment_rows db' = comment_rows db"
    and "\<exists>r\<in>set (userInteraction_rows db). ui_id r = i"
  using assms by (auto simp: userInteraction_increment_def find_None_iff split: if_splits)

lemma popularity_after_increment:
  assumes "newsInteraction_rows db' =
           map (\<lambda>r. if ni_id r = i then r\<lparr>popularityScore := popularityScore r + k\<rparr> else r)
             (newsInteraction_rows db)"
    and "newsInteraction_findFirst db nid = Some row" and "ni_id row = i"
  shows "popularityScore_of db' nid = map_option (\<lambda>p. p + k) (popularityScore_of db nid)"
  using assms
  by (simp add: popularityScore_of_def newsInteraction_findFirst_def find_map_same)

lemma contribution_after_increment:
  assumes "userInteraction_rows db' =
           map (\<lambda>r. if ui_id r = i then r\<lparr>contributionScore := contributionScore r + k\<rparr> else r)
             (userInteraction_rows db)"
    and "userInteraction_findFirst db uid = Some row" and "ui_id row = i"
  shows "contributionScore_of db' uid = map_option (\<lambda>p. p + k) (contributionScore_of db uid)"
  using assms
  by (simp add: contributionScore_of_def userInteraction_findFirst_def find_map_same)

lemma ni_keys_increment:
  "newsInteraction_rows db' =
           map (\<lambda>r. if ni_id r = i then r\<lparr>popularityScore := popularityScore r + k\<rparr> else r)
             (newsInteraction_rows db) \<Longrightarrow> ni_keys db' = ni_keys db"
  by (simp add: ni_keys_def)

lemma ui_keys_increment:
  "userInteraction_rows db' =
           map (\<lambda>r. if ui_id r = i then r\<lparr>contributionScore := contributionScore r + k\<rparr> else r)
             (userInteraction_rows db) \<Longrightarrow> ui_keys db' = ui_keys db"
  by (simp add: ui_keys_def)

lemma transaction_cases:
  assumes "transaction body db = (r, db')"
  obtains e where "body db = Inl e" "r = Inl e" "db' = db"
  | "body db = Inr db'" "r = Inr ()"
  using assms by (auto simp: transaction_def split: sum.splits)

lemma addComment_tx_Inr:
  assumes "addComment_tx u d newId db = Inr db'"
  obtains ni ui where
    "newsInteraction_findFirst db (input_newsId d) = Some ni"
    "userInteraction_findFirst db (user_id u) = Some ui"
    "newsInteraction_rows db' =
       map (\<lambda>r. if ni_id r = ni_id ni then r\<lparr>popularityScore := popularityScore r + 2\<rparr> else r)
         (newsInteraction_rows db)"
    "userInteraction_rows db' =
       map (\<lambda>r. if ui_id r = ui_id ui then r\<lparr>contributionScore := contributionScore r + 2\<rparr> else r)
         (userInteraction_rows db)"
    "comment_rows db' = comment_rows db @
       [\<lparr>comment_id = newId, comment_text = input_text d,
         newsInteractionId = ni_id ni, userInteractionId = ui_id ui\<rparr>]"
    "comment_findUnique db newId = None"
proof -
  from assms obtain ni where ni: "newsInteraction_findFirst db (input_newsId d) = Some ni"
    by (auto simp: addComment_tx_def split: option.splits)
  from assms ni obtain ui where ui: "userInteraction_findFirst db (user_id u) = Some ui"
    by (auto simp: addComment_tx_def split: option.splits)
  let ?c = "\<lparr>comment_id = newId, comment_text = input_text d,
         newsInteractionId = ni_id ni, userInteractionId = ui_id ui\<rparr>"
  from assms ni ui obtain tx1 where tx1: "comment_create db ?c = Inr tx1"
    by (auto simp: addComment_tx_def split: sum.splits)
  from assms ni ui tx1 obtain tx2 where tx2: "newsInteraction_increment tx1 (ni_id ni) 2 = Inr tx2"
    by (auto simp: addComment_tx_def split: sum.splits)
  from assms ni ui tx1 tx2 have tx3: "userInteraction_increment tx2 (ui_id ui) 2 = Inr db'"
    by (auto simp: addComment_tx_def split: sum.splits)
  from tx1 have r1: "tx1 = db\<lparr>comment_rows := comment_rows db @ [?c]\<rparr>"
    and fresh: "comment_findUnique db newId = None"
    by (auto simp: comment_create_def split: if_splits)
  note r2 = newsInteraction_increment_Inr[OF tx2]
  note r3 = userInteraction_increment_Inr[OF tx3]
  show ?thesis
    by (rule that[OF ni ui]) (simp_all add: r1 r2 r3 fresh)
qed

lemma deleteComment_tx_Inr:
  assumes "deleteComment_tx c cid db = Inr db'"
  shows "newsInteraction_rows db' =
       map (\<lambda>r. if ni_id r = newsInteractionId c
                 then r\<lparr>popularityScore := popularityScore r + (- 2)\<rparr> else r)
         (newsInteraction_rows db)"
    and "userInteraction_rows db' =
       map (\<lambda>r. if ui_id r = userInteractionId c
                 then r\<lparr>contributionScore := contributionScore r + (- 2)\<rparr> else r)
         (userInteraction_rows db)"
    and "comment_rows db' = filter (\<lambda>x. comment_id x \<noteq> cid) (comment_rows db)"
    and "\<exists>r\<in>set (newsInteraction_rows db). ni_id r = newsInteractionId c"
proof -
  from assms obtain tx1 where tx1: "comment_delete db cid = Inr tx1"
    by (auto simp: deleteComment_tx_def split: sum.splits)
  from assms tx1 obtain tx2 where
    tx2: "newsInteraction_increment tx1 (newsInteractionId c) (- 2) = Inr tx2"
    by (auto simp: deleteComment_tx_def split: sum.splits)
  from assms tx1 tx2 have tx3: "userInteraction_increment tx2 (userInteractionId c) (- 2) = Inr db'"
    by (auto simp: deleteComment_tx_def split: sum.splits)
  from tx1 have r1: "tx1 = db\<lparr>comment_rows := filter (\<lambda>x. comment_id x \<noteq> cid) (comment_rows db)\<rparr>"
    by (auto simp: comment_delete_def split: if_splits)
  note r2 = newsInteraction_increment_Inr[OF tx2]
  note r3 = userInteraction_increment_Inr[OF tx3]
  show "newsInteraction_rows db' =
       map (\<lambda>r. if ni_id r = newsInteractionId c
                 then r\<lparr>popularityScore := popularityScore r + (- 2)\<rparr> else r)
         (newsInteraction_rows db)"
    by (simp add: r1 r2 r3)
  show "userInteraction_rows db' =
       map (\<lambda>r. if ui_id r = userInteractionId c
                 then r\<lparr>contributionScore := contributionScore r + (- 2)\<rparr> else r)
         (userInteraction_rows db)"
    by (simp add: r1 r2 r3)
  show "comment_rows db' = filter (\<lambda>x. comment_id x \<noteq> cid) (comment_rows db)"
    by (simp add: r1 r2 r3)
  show "\<exists>r\<in>set (newsInteraction_rows db). ni_id r = newsInteractionId c"
    using r2(4) by (simp add: r1)
qed

lemma addComment_step:
  assumes wf: "well_formed db"
    and run: "addComment db (Some u) d newId = (r, db')"
    and on: "input_newsId d = nid"
  shows "ni_keys db' = ni_keys db \<and> ui_keys db' = ui_keys db
     \<and> (\<forall>c\<in>set (comment_rows db'). c \<in> set (comment_rows db) \<or> comment_on db nid c)
     \<and> popularityScore_of db' nid
         = map_option (\<lambda>p. p + delta (AddComment d newId) r) (popularityScore_of db nid)
     \<and> contributionScore_of db' (user_id u)
         = map_option (\<lambda>p. p + delta (AddComment d newId) r) (contributionScore_of db (user_id u))"
proof (cases "isl r")
  case True
  with run have "db' = db"
    by (auto simp: addComment_def split: if_splits elim!: transaction_cases)
  with True show ?thesis by (simp add: delta_def option.map_ident)
next
  case False
  with run have tx: "addComment_tx u d newId db = Inr db'"
    by (auto simp: addComment_def split: if_splits elim!: transaction_cases)
  from tx obtain ni ui where
    ni: "newsInteraction_findFirst db (input_newsId d) = Some ni" and
    ui: "userInteraction_findFirst db (user_id u) = Some ui" and
    nrows: "newsInteraction_rows db' =
       map (\<lambda>r. if ni_id r = ni_id ni then r\<lparr>popularityScore := popularityScore r + 2\<rparr> else r)
         (newsInteraction_rows db)" and
    urows: "userInteraction_rows db' =
       map (\<lambda>r. if ui_id r = ui_id ui then r\<lparr>contributionScore := contributionScore r + 2\<rparr> else r)
         (userInteraction_rows db)" and
    crows: "comment_rows db' = comment_rows db @
       [\<lparr>comment_id = newId, comment_text = input_text d,
         newsInteractionId = ni_id ni, userInteractionId = ui_id ui\<rparr>]" and
    fresh: "comment_findUnique db newId = None"
    by (rule addComment_tx_Inr)
  have d: "delta (AddComment d newId) r = 2" using False by (simp add: delta_def)
  have k1: "ni_keys db' = ni_keys db" using nrows by (rule ni_keys_increment)
  have k2: "ui_keys db' = ui_keys db" using urows by (rule ui_keys_increment)
  from ni have nin: "(ni_id ni, nid) \<in> set (ni_keys db)"
    using find_SomeD[of "\<lambda>r. ni_newsId r = input_newsId d" "newsInteraction_rows db" ni] on
    by (auto simp: newsInteraction_findFirst_def ni_keys_def image_iff)
  have "comment_on db nid \<lparr>comment_id = newId, comment_text = input_text d,
         newsInteractionId = ni_id ni, userInteractionId = ui_id ui\<rparr>"
    unfolding comment_on_keys
  proof (intro ballI impI)
    fix k assume "k \<in> set (ni_keys db)"
      and "fst k = newsInteractionId \<lparr>comment_id = newId, comment_text = input_text d,
         newsInteractionId = ni_id ni, userInteractionId = ui_id ui\<rparr>"
    then have "k \<in> set (ni_keys db)" "k = (ni_id ni, snd k)"
      by (simp_all add: prod_eq_iff)
    then have "(ni_id ni, snd k) \<in> set (ni_keys db)" by simp
    with nin wf show "snd k = nid"
      using eq_key_imp_eq_value[of "ni_keys db" "ni_id ni" "snd k" nid]
      by (simp add: well_formed_keys)
  qed
  then have c: "\<forall>c\<in>set (comment_rows db'). c \<in> set (comment_rows db) \<or> comment_on db nid c"
    by (auto simp: crows)
  have p: "popularityScore_of db' nid = map_option (\<lambda>p. p + 2) (popularityScore_of db nid)"
    using nrows ni on by (intro popularity_after_increment[where row = ni]) simp_all
  have q: "contributionScore_of db' (user_id u)
         = map_option (\<lambda>p. p + 2) (contributionScore_of db (user_id u))"
    using urows ui by (intro contribution_after_increment[where row = ui]) simp_all
  from k1 k2 c p q show ?thesis by (simp add: d)
qed

lemma deleteComment_step:
  assumes wf: "well_formed db"
    and run: "deleteComment db (Some u) cid = (r, db')"
    and on: "\<forall>c\<in>set (comment_rows db). comment_id c = cid \<longrightarrow> comment_on db nid c"
  shows "ni_keys db' = ni_keys db \<and> ui_keys db' = ui_keys db
     \<and> (\<forall>c\<in>set (comment_rows db'). c \<in> set (comment_rows db) \<or> comment_on db nid c)
     \<and> popularityScore_of db' nid
         = map_option (\<lambda>p. p + delta (DeleteComment cid) r) (popularityScore_of db nid)
     \<and> contributionScore_of db' (user_id u)
         = map_option (\<lambda>p. p + delta (DeleteComment cid) r) (contributionScore_of db (user_id u))"
proof (cases "isl r")
  case True
  with run have "db' = db"
    by (auto simp: deleteComment_def split: option.splits if_splits elim!: transaction_cases)
  with True show ?thesis by (simp add: delta_def option.map_ident)
next
  case False
  with run obtain c author where
    c: "comment_findUnique db cid = Some c" and
    a: "userInteraction_findUnique db (userInteractionId c) = Some author" and
    own: "ui_userId author = user_id u" and
    tx: "deleteComment_tx c cid db = Inr db'"
    by (auto simp: deleteComment_def split: option.splits if_splits elim!: transaction_cases)
  note rows = deleteComment_tx_Inr[OF tx]
  have d: "delta (DeleteComment cid) r = - 2" using False by (simp add: delta_def)
  have k1: "ni_keys db' = ni_keys db" using rows(1) by (rule ni_keys_increment)
  have k2: "ui_keys db' = ui_keys db" using rows(2) by (rule ui_keys_increment)
  have cm: "\<forall>c\<in>set (comment_rows db'). c \<in> set (comment_rows db) \<or> comment_on db nid c"
    by (simp add: rows(3))
  from c have cin: "c \<in> set (comment_rows db)" "comment_id c = cid"
    using find_SomeD[of "\<lambda>x. comment_id x = cid" "comment_rows db" c]
    by (simp_all add: comment_findUnique_def)
  with on have con: "comment_on db nid c" by simp
  from rows(4) obtain row where row: "row \<in> set (newsInteraction_rows db)"
    "ni_id row = newsInteractionId c" by auto
  with con have "ni_newsId row = nid"
    by (auto simp: comment_on_def list_all_iff)
  with wf row(1) have f: "newsInteraction_findFirst db nid = Some row"
    using find_by_key[of ni_newsId "newsInteraction_rows db" row]
    by (simp add: well_formed_def newsInteraction_findFirst_def)
  have p: "popularityScore_of db' nid = map_option (\<lambda>p. p + (- 2)) (popularityScore_of db nid)"
    using rows(1) f row(2) by (rule popularity_after_increment)
  from a have ain: "author \<in> set (userInteraction_rows db)" "ui_id author = userInteractionId c"
    using find_SomeD[of "\<lambda>x. ui_id x = userInteractionId c" "userInteraction_rows db" author]
    by (simp_all add: userInteraction_findUnique_def)
  with wf own have g: "userInteraction_findFirst db (user_id u) = Some author"
    using find_by_key[of ui_userId "userInteraction_rows db" author]
    by (simp add: well_formed_def userInteraction_findFirst_def)
  have q: "contributionScore_of db' (user_id u)
         = map_option (\<lambda>p. p + (- 2)) (contributionScore_of db (user_id u))"
    using rows(2) g ain(2) by (rule contribution_after_increment)
  from k1 k2 cm p q show ?thesis by (simp add: d)
qed


lemma map_option_add_add:
  "map_option (\<lambda>p. p + b) (map_option (\<lambda>p. p + a) x) = map_option (\<lambda>p. p + (a + b)) (x :: int option)"
  by (cases x) simp_all

lemma succeeded_Cons:
  "succeeded kind (c # cs) (r # rs)
     = (if kind c \<and> \<not> isl r then 1 else 0) + succeeded kind cs rs"
  by (simp add: succeeded_def)

lemma delta_counts:
  "delta c r + 2 * (int (succeeded is_add cs rs) - int (succeeded (\<lambda>c. \<not> is_add c) cs rs))
     = 2 * (int (succeeded is_add (c # cs) (r # rs))
            - int (succeeded (\<lambda>c. \<not> is_add c) (c # cs) (r # rs)))"
  by (simp add: succeeded_Cons delta_def)

lemma perform_step:
  assumes wf: "well_formed db"
    and run: "perform db (Some u) c = (r, db')"
    and adds: "\<forall>d i. c = AddComment d i \<longrightarrow> input_newsId d = nid"
    and dels: "\<forall>x\<in>set (comment_rows db). c = DeleteComment (comment_id x) \<longrightarrow> comment_on db nid x"
  shows "ni_keys db' = ni_keys db \<and> ui_keys db' = ui_keys db
     \<and> (\<forall>c\<in>set (comment_rows db'). c \<in> set (comment_rows db) \<or> comment_on db nid c)
     \<and> popularityScore_of db' nid
         = map_option (\<lambda>p. p + delta c r) (popularityScore_of db nid)
     \<and> contributionScore_of db' (user_id u)
         = map_option (\<lambda>p. p + delta c r) (contributionScore_of db (user_id u))"
proof (cases c)
  case (AddComment d i)
  with run adds show ?thesis using addComment_step[OF wf, of u d i r db' nid] by simp
next
  case (DeleteComment cid)
  with run dels show ?thesis using deleteComment_step[OF wf, of u cid r db' nid] by simp
qed

text \<open>What one call does to the comment rows.\<close>

lemma addComment_rows_step:
  assumes dist: "distinct (comment_ids db)"
    and run: "addComment db (Some u) d newId = (r, db')"
    and on: "input_newsId d = nid"
  shows "comment_ids db' = ids_step (comment_ids db) (AddComment d newId) r
     \<and> distinct (comment_ids db')
     \<and> 2 * int (length (comment_rows db'))
         = 2 * int (length (comment_rows db)) + delta (AddComment d newId) r
     \<and> (\<forall>x\<in>set (comment_rows db'). x \<in> set (comment_rows db) \<or> linked db nid (user_id u) x)"
proof (cases "isl r")
  case True
  with run have "db' = db"
    by (auto simp: addComment_def split: if_splits elim!: transaction_cases)
  with True dist show ?thesis by (simp add: delta_def)
next
  case False
  with run have tx: "addComment_tx u d newId db = Inr db'"
    by (auto simp: addComment_def split: if_splits elim!: transaction_cases)
  from tx obtain ni ui where
    ni: "newsInteraction_findFirst db (input_newsId d) = Some ni" and
    ui: "userInteraction_findFirst db (user_id u) = Some ui" and
    crows: "comment_rows db' = comment_rows db @
       [\<lparr>comment_id = newId, comment_text = input_text d,
         newsInteractionId = ni_id ni, userInteractionId = ui_id ui\<rparr>]" and
    fresh: "comment_findUnique db newId = None"
    by (rule addComment_tx_Inr)
  from fresh have new: "newId \<notin> set (comment_ids db)"
    by (auto simp: comment_findUnique_def find_None_iff comment_ids_def)
  have l: "linked db nid (user_id u) \<lparr>comment_id = newId, comment_text = input_text d,
         newsInteractionId = ni_id ni, userInteractionId = ui_id ui\<rparr>"
    using ni ui on by (simp add: linked_def)
  from False new dist l show ?thesis
    by (auto simp: crows comment_ids_def delta_def)
qed

lemma deleteComment_rows_step:
  assumes dist: "distinct (comment_ids db)"
    and run: "deleteComment db (Some u) cid = (r, db')"
  shows "comment_ids db' = ids_step (comment_ids db) (DeleteComment cid) r
     \<and> distinct (comment_ids db')
     \<and> 2 * int (length (comment_rows db'))
         = 2 * int (length (comment_rows db)) + delta (DeleteComment cid) r
     \<and> (\<forall>x\<in>set (comment_rows db'). x \<in> set (comment_rows db) \<or> linked db nid (user_id u) x)"
proof (cases "isl r")
  case True
  with run have "db' = db"
    by (auto simp: deleteComment_def split: option.splits if_splits elim!: transaction_cases)
  with True dist show ?thesis by (simp add: delta_def)
next
  case False
  with run obtain c where
    c: "comment_findUnique db cid = Some c" and
    tx: "deleteComment_tx c cid db = Inr db'"
    by (auto simp: deleteComment_def split: option.splits if_splits elim!: transaction_cases)
  note rows = deleteComment_tx_Inr[OF tx]
  from c have "cid \<in> set (comment_ids db)"
    using find_SomeD[of "\<lambda>x. comment_id x = cid" "comment_rows db" c]
    by (auto simp: comment_findUnique_def comment_ids_def)
  with dist have len: "Suc (length (filter (\<lambda>i. i \<noteq> cid) (comment_ids db))) = length (comment_ids db)"
    by (intro length_filter_distinct)
  have ids: "comment_ids db' = filter (\<lambda>i. i \<noteq> cid) (comment_ids db)"
    by (simp add: comment_ids_def rows(3) filter_map comp_def)
  have "length (comment_rows db') = length (comment_ids db')"
    and "length (comment_rows db) = length (comment_ids db)"
    by (simp_all add: comment_ids_def)
  then have "2 * int (length (comment_rows db')) = 2 * int (length (comment_rows db)) + (- 2)"
    using len unfolding ids by linarith
  moreover have "\<forall>x\<in>set (comment_rows db'). x \<in> set (comment_rows db)"
    by (simp add: rows(3))
  ultimately show ?thesis
    using False dist ids by (simp add: delta_def)
qed

lemma perform_rows_step:
  assumes "distinct (comment_ids db)"
    and "perform db (Some u) c = (r, db')"
    and "\<forall>d i. c = AddComment d i \<longrightarrow> input_newsId d = nid"
  shows "comment_ids db' = ids_step (comment_ids db) c r
     \<and> distinct (comment_ids db')
     \<and> 2 * int (length (comment_rows db')) = 2 * int (length (comment_rows db)) + delta c r
     \<and> (\<forall>x\<in>set (comment_rows db'). x \<in> set (comment_rows db) \<or> linked db nid (user_id u) x)"
proof (cases c)
  case (AddComment d i)
  with assms have run: "addComment db (Some u) d i = (r, db')" and on: "input_newsId d = nid"
    by simp_all
  show ?thesis
    unfolding AddComment by (rule addComment_rows_step[OF assms(1) run on])
next
  case (DeleteComment cid)
  with assms have run: "deleteComment db (Some u) cid = (r, db')"
    by simp
  show ?thesis
    unfolding DeleteComment by (rule deleteComment_rows_step[OF assms(1) run])
qed

text \<open>
  C3: when the session user is not the author of the comment, \<^verbatim>\<open>deleteComment\<close>
  fails with the error "Unauthorized" and the store is what it was: the comment row, the
  popularity score of the item and the contribution score of the author are unchanged.
\<close>

theorem unauthorized_delete_changes_nothing:
  assumes "comment_findUnique db commentId = Some c"
    and "userInteraction_findUnique db (userInteractionId c) = Some author"
    and "ui_userId author \<noteq> user_id u"
  shows "deleteComment db (Some u) commentId = (Inl (Error ''Unauthorized''), db)"
  using assms by (simp add: deleteComment_def)

theorem unauthorized_delete_changes_nothing_witness:
  "comment_findUnique example_db ''c1'' = Some (hd (comment_rows example_db))
   \<and> userInteraction_findUnique example_db (userInteractionId (hd (comment_rows example_db)))
       = Some (hd (userInteraction_rows example_db))
   \<and> ui_userId (hd (userInteraction_rows example_db)) \<noteq> user_id \<lparr>user_id = ''bob''\<rparr>
   \<and> deleteComment example_db (Some \<lparr>user_id = ''bob''\<rparr>) ''c1''
       = (Inl (Error ''Unauthorized''), example_db)"
proof -
  have h1: "comment_findUnique example_db ''c1'' = Some (hd (comment_rows example_db))"
    by (simp add: comment_findUnique_def example_db_def)
  have h2: "userInteraction_findUnique example_db
              (userInteractionId (hd (comment_rows example_db)))
            = Some (hd (userInteraction_rows example_db))"
    by (simp add: userInteraction_findUnique_def example_db_def)
  have h3: "ui_userId (hd (userInteraction_rows example_db)) \<noteq> user_id \<lparr>user_id = ''bob''\<rparr>"
    by (simp add: example_db_def)
  from unauthorized_delete_changes_nothing[OF h1 h2 h3] h1 h2 h3
  show ?thesis by blast
qed

text \<open>
  C1: a sequence of \<^verbatim>\<open>addComment\<close> and \<^verbatim>\<open>deleteComment\<close> calls of one user on one
  news item, of which N additions and M deletions succeed, leaves the popularity score
  of the item and the contribution score of the user each at its former value plus
  \<open>2 * (N - M)\<close>, and the scores move with the comments: each successful addition
  has created exactly one comment, under its new id and linked to the item and the user,
  each successful deletion has removed exactly the one comment it names, and a failed
  call has touched neither, so the number of comments has grown by \<open>N - M\<close>. The
  additions name the item, and the comments that the deletions name hang on the item.
\<close>

theorem scores_follow_comment_calls:
  assumes "well_formed db"
    and "\<forall>c\<in>set calls. \<forall>d i. c = AddComment d i \<longrightarrow> input_newsId d = nid"
    and "\<forall>x\<in>set (comment_rows db). DeleteComment (comment_id x) \<in> set calls \<longrightarrow> comment_on db nid x"
    and "perform_all db (Some u) calls = (results, db')"
  shows "popularityScore_of db' nid
           = map_option (\<lambda>p. p + 2 * (int (succeeded is_add calls results)
                                       - int (succeeded (\<lambda>c. \<not> is_add c) calls results)))
               (popularityScore_of db nid)
       \<and> contributionScore_of db' (user_id u)
           = map_option (\<lambda>p. p + 2 * (int (succeeded is_add calls results)
                                       - int (succeeded (\<lambda>c. \<not> is_add c) calls results)))
               (contributionScore_of db (user_id u))
       \<and> comment_ids db' = comment_ids_after (comment_ids db) calls results
       \<and> distinct (comment_ids db')
       \<and> int (length (comment_rows db'))
           = int (length (comment_rows db))
             + (int (succeeded is_add calls results)
                - int (succeeded (\<lambda>c. \<not> is_add c) calls results))
       \<and> (\<forall>x\<in>set (comment_rows db').
             x \<in> set (comment_rows db) \<or> linked db nid (user_id u) x)"
  using assms
proof (induction calls arbitrary: db results db')
  case Nil
  then show ?case by (simp add: succeeded_def option.map_ident well_formed_keys)
next
  case (Cons c cs)
  obtain r db1 where s1: "perform db (Some u) c = (r, db1)"
    by (cases "perform db (Some u) c")
  obtain rs db2 where s2: "perform_all db1 (Some u) cs = (rs, db2)"
    by (cases "perform_all db1 (Some u) cs")
  from Cons.prems(4) s1 s2 have res: "results = r # rs" "db' = db2" by simp_all
  have step: "ni_keys db1 = ni_keys db \<and> ui_keys db1 = ui_keys db
     \<and> (\<forall>c\<in>set (comment_rows db1). c \<in> set (comment_rows db) \<or> comment_on db nid c)
     \<and> popularityScore_of db1 nid
         = map_option (\<lambda>p. p + delta c r) (popularityScore_of db nid)
     \<and> contributionScore_of db1 (user_id u)
         = map_option (\<lambda>p. p + delta c r) (contributionScore_of db (user_id u))"
    using Cons.prems(1) s1 Cons.prems(2,3) by (intro perform_step) simp_all
  have dist: "distinct (comment_ids db)"
    using Cons.prems(1) by (simp add: well_formed_keys)
  have rows: "comment_ids db1 = ids_step (comment_ids db) c r
     \<and> distinct (comment_ids db1)
     \<and> 2 * int (length (comment_rows db1)) = 2 * int (length (comment_rows db)) + delta c r
     \<and> (\<forall>x\<in>set (comment_rows db1). x \<in> set (comment_rows db) \<or> linked db nid (user_id u) x)"
    using dist s1 Cons.prems(2) by (intro perform_rows_step) simp_all
  have dist1: "distinct (comment_ids db1)"
    using rows by blast
  have wf1: "well_formed db1"
    using Cons.prems(1) step dist1 by (simp add: well_formed_keys)
  have on1: "\<And>x. comment_on db1 nid x = comment_on db nid x"
    using step by (simp add: comment_on_keys)
  have link1: "\<And>x. linked db1 nid (user_id u) x = linked db nid (user_id u) x"
    using step by (simp add: linked_keys)
  have dels1: "\<forall>x\<in>set (comment_rows db1). DeleteComment (comment_id x) \<in> set cs
                 \<longrightarrow> comment_on db1 nid x"
    using step Cons.prems(3) on1 by auto
  have adds1: "\<forall>c\<in>set cs. \<forall>d i. c = AddComment d i \<longrightarrow> input_newsId d = nid"
    using Cons.prems(2) by simp
  note ih = Cons.IH[OF wf1 adds1 dels1 s2]
  let ?rest = "2 * (int (succeeded is_add cs rs) - int (succeeded (\<lambda>c. \<not> is_add c) cs rs))"
  have p: "popularityScore_of db2 nid
          = map_option (\<lambda>p. p + (delta c r + ?rest)) (popularityScore_of db nid)"
    using ih step by (simp add: map_option_add_add)
  have q: "contributionScore_of db2 (user_id u)
          = map_option (\<lambda>p. p + (delta c r + ?rest)) (contributionScore_of db (user_id u))"
    using ih step by (simp add: map_option_add_add)
  have i: "comment_ids db2 = comment_ids_after (comment_ids db) (c # cs) (r # rs)"
    using ih rows by simp
  have d: "distinct (comment_ids db2)"
    using ih by blast
  have "2 * int (length (comment_rows db2))
          = 2 * int (length (comment_rows db)) + (delta c r + ?rest)"
    using ih rows by simp
  then have n: "int (length (comment_rows db2))
          = int (length (comment_rows db))
            + (int (succeeded is_add (c # cs) (r # rs))
               - int (succeeded (\<lambda>c. \<not> is_add c) (c # cs) (r # rs)))"
    unfolding delta_counts by simp
  have l: "\<forall>x\<in>set (comment_rows db2).
             x \<in> set (comment_rows db) \<or> linked db nid (user_id u) x"
    using ih rows link1 by auto
  show ?case
    unfolding res
    by (intro conjI) (rule p[unfolded delta_counts] q[unfolded delta_counts] i d n l)+
qed

theorem scores_follow_comment_calls_witness:
  "well_formed example_db
   \<and> succeeded is_add example_calls
        (fst (perform_all example_db (Some \<lparr>user_id = ''alice''\<rparr>) example_calls)) = 2
   \<and> succeeded (\<lambda>c. \<not> is_add c) example_calls
        (fst (perform_all example_db (Some \<lparr>user_id = ''alice''\<rparr>) example_calls)) = 1
   \<and> popularityScore_of example_db ''n1'' = Some 2
   \<and> contributionScore_of example_db ''alice'' = Some 2
   \<and> comment_ids example_db = [''c1'']
   \<and> popularityScore_of
        (snd (perform_all example_db (Some \<lparr>user_id = ''alice''\<rparr>) example_calls)) ''n1'' = Some 4
   \<and> contributionScore_of
        (snd (perform_all example_db (Some \<lparr>user_id = ''alice''\<rparr>) example_calls)) ''alice'' = Some 4
   \<and> comment_ids
        (snd (perform_all example_db (Some \<lparr>user_id = ''alice''\<rparr>) example_calls))
       = [''c2'', ''c3'']"
proof -
  let ?u = "\<lparr>user_id = ''alice''\<rparr>"
  let ?run = "perform_all example_db (Some ?u) example_calls"
  have h1: "well_formed example_db"
    by (simp add: well_formed_def example_db_def)
  have h2: "\<forall>c\<in>set example_calls. \<forall>d i. c = AddComment d i \<longrightarrow> input_newsId d = ''n1''"
    by (auto simp: example_calls_def)
  have h3: "\<forall>x\<in>set (comment_rows example_db).
              DeleteComment (comment_id x) \<in> set example_calls \<longrightarrow> comment_on example_db ''n1'' x"
    by (simp add: example_db_def example_calls_def comment_on_def)
  have h4: "?run = (fst ?run, snd ?run)" by simp
  have n: "succeeded is_add example_calls (fst ?run) = 2" by code_simp
  have m: "succeeded (\<lambda>c. \<not> is_add c) example_calls (fst ?run) = 1" by code_simp
  have p: "popularityScore_of example_db ''n1'' = Some 2" by code_simp
  have q: "contributionScore_of example_db ''alice'' = Some 2" by code_simp
  have i: "comment_ids example_db = [''c1'']" by code_simp
  have a: "comment_ids_after [''c1''] example_calls (fst ?run) = [''c2'', ''c3'']" by code_simp
  from scores_follow_comment_calls[OF h1 h2 h3 h4]
  have "popularityScore_of (snd ?run) ''n1'' = Some 4
      \<and> contributionScore_of (snd ?run) ''alice'' = Some 4
      \<and> comment_ids (snd ?run) = [''c2'', ''c3'']"
    by (simp add: n m p q i a)
  with h1 n m p q i show ?thesis by blast
qed

section \<open>Properties of the dashboard\<close>

subsection \<open>Rounding to a double\<close>

lemma pow2_powr: "pow2 k = 2 powr (of_int k)"
  by (simp add: pow2_def powr_real_of_int inverse_eq_divide)

lemma pow2_pos [simp]: "0 < pow2 k"
  by (simp add: pow2_def)

lemma pow2_add: "pow2 (a + b) = pow2 a * pow2 b"
  by (simp add: pow2_powr powr_add)

lemma pow2_mono: "a \<le> b \<Longrightarrow> pow2 a \<le> pow2 b"
  by (simp add: pow2_powr)

lemma floor_log2:
  assumes "x \<noteq> 0"
  shows "pow2 \<lfloor>log 2 \<bar>x\<bar>\<rfloor> \<le> \<bar>x\<bar>" "\<bar>x\<bar> < pow2 (\<lfloor>log 2 \<bar>x\<bar>\<rfloor> + 1)"
  using assms floor_log_eq_powr_iff[of "\<bar>x\<bar>" 2 "\<lfloor>log 2 \<bar>x\<bar>\<rfloor>"]
  by (simp_all add: pow2_powr)

lemma floor_log2_eq:
  assumes "pow2 k \<le> \<bar>x\<bar>" "\<bar>x\<bar> < pow2 (k + 1)"
  shows "\<lfloor>log 2 \<bar>x\<bar>\<rfloor> = k"
proof -
  have "0 < \<bar>x\<bar>" using assms(1) pow2_pos[of k] by linarith
  then show ?thesis
    using assms floor_log_eq_powr_iff[of "\<bar>x\<bar>" 2 k] by (simp add: pow2_powr)
qed

lemma round_half_even_error: "\<bar>of_int (round_half_even x) - x\<bar> \<le> 1 / 2"
  unfolding round_half_even_def by (auto simp: abs_if) linarith+

lemma round_half_even_of_int [simp]: "round_half_even (of_int k) = k"
  by (simp add: round_half_even_def)

lemma pow2_not_le [simp]: "\<not> pow2 k \<le> 0"
  by (simp add: not_le)

lemma pow2_neq0 [simp]: "pow2 k \<noteq> 0"
  using pow2_pos[of k] by linarith

lemma pow2_less_cancel: "pow2 a < pow2 b \<Longrightarrow> a < b"
  by (simp add: pow2_powr)

lemma binade_normal:
  assumes "pow2 (- 1022) \<le> \<bar>x\<bar>"
  shows "binade x = \<lfloor>log 2 \<bar>x\<bar>\<rfloor>"
proof -
  have "x \<noteq> 0" using assms pow2_pos[of "- 1022"] by auto
  from floor_log2(2)[OF this] assms have "pow2 (- 1022) < pow2 (\<lfloor>log 2 \<bar>x\<bar>\<rfloor> + 1)"
    by linarith
  then have "- 1022 < \<lfloor>log 2 \<bar>x\<bar>\<rfloor> + 1" by (rule pow2_less_cancel)
  then show ?thesis by (simp add: binade_def)
qed

lemma nearest_double_error:
  "\<bar>nearest_double x - x\<bar> \<le> pow2 (binade x - 52) / 2"
proof (cases "x = 0")
  case True
  then show ?thesis by (simp add: nearest_double_def less_imp_le)
next
  case False
  let ?q = "pow2 (binade x - 52)"
  let ?m = "of_int (round_half_even (\<bar>x\<bar> / ?q)) :: real"
  have "nearest_double x - x = sgn x * (?m * ?q - \<bar>x\<bar>)"
    using False by (simp add: nearest_double_def algebra_simps sgn_real_def)
  then have "\<bar>nearest_double x - x\<bar> = \<bar>?m * ?q - \<bar>x\<bar>\<bar>"
    using False by (simp add: abs_mult sgn_real_def)
  also have "?m * ?q - \<bar>x\<bar> = (?m - \<bar>x\<bar> / ?q) * ?q"
    by (simp add: algebra_simps)
  also have "\<bar>(?m - \<bar>x\<bar> / ?q) * ?q\<bar> = \<bar>?m - \<bar>x\<bar> / ?q\<bar> * ?q"
    by (simp add: abs_mult less_imp_le)
  also have "\<dots> \<le> (1 / 2) * ?q"
    using round_half_even_error[of "\<bar>x\<bar> / ?q"]
    by (intro mult_right_mono) (simp_all add: less_imp_le)
  finally show ?thesis by simp
qed

lemma spacing_normal:
  assumes "pow2 (- 1022) \<le> \<bar>x\<bar>"
  shows "pow2 (binade x - 52) \<le> \<bar>x\<bar> / 2 ^ 52"
proof -
  have "x \<noteq> 0" using assms pow2_pos[of "- 1022"] by auto
  have "pow2 (binade x - 52) = pow2 (binade x) * pow2 (- 52)"
    using pow2_add[of "binade x" "- 52"] by simp
  also have "\<dots> = pow2 (binade x) / 2 ^ 52"
    by (simp add: pow2_def)
  also have "\<dots> \<le> \<bar>x\<bar> / 2 ^ 52"
    using floor_log2(1)[OF \<open>x \<noteq> 0\<close>] binade_normal[OF assms]
    by (simp add: divide_right_mono)
  finally show ?thesis .
qed

lemma spacing_le: "x \<noteq> 0 \<Longrightarrow> pow2 (binade x - 52) \<le> \<bar>x\<bar> + 1"
proof (cases "pow2 (- 1022) \<le> \<bar>x\<bar>")
  case True
  have "\<bar>x\<bar> / 2 ^ 52 \<le> \<bar>x\<bar>"
    by (simp add: field_simps)
  with spacing_normal[OF True] show ?thesis by linarith
next
  case False
  assume nz: "x \<noteq> 0"
  from floor_log2(1)[OF nz] False have "pow2 \<lfloor>log 2 \<bar>x\<bar>\<rfloor> < pow2 (- 1022)" by linarith
  then have "\<lfloor>log 2 \<bar>x\<bar>\<rfloor> < - 1022" by (rule pow2_less_cancel)
  then have "binade x = - 1022" by (simp add: binade_def)
  then have "pow2 (binade x - 52) = pow2 (- 1074)" by simp
  also have "\<dots> \<le> 1" by (simp add: pow2_def)
  finally show ?thesis by linarith
qed

lemma nearest_double_abs_le: "\<bar>nearest_double x\<bar> \<le> 2 * \<bar>x\<bar> + 1"
proof (cases "x = 0")
  case True
  then show ?thesis by (simp add: nearest_double_def)
next
  case False
  with nearest_double_error[of x] spacing_le[of x] show ?thesis by linarith
qed

lemma nearest_double_rel:
  assumes "pow2 (- 1022) \<le> \<bar>x\<bar>"
  shows "\<bar>nearest_double x - x\<bar> \<le> \<bar>x\<bar> / 2 ^ 53"
  using nearest_double_error[of x] spacing_normal[OF assms] by simp

lemma nearest_double_of_int:
  assumes "\<bar>k\<bar> < 2 ^ 53"
  shows "nearest_double (of_int k) = of_int k"
proof (cases "k = 0")
  case True
  then show ?thesis by (simp add: nearest_double_def)
next
  case False
  let ?x = "of_int k :: real"
  let ?e = "\<lfloor>log 2 \<bar>?x\<bar>\<rfloor>"
  have nz: "?x \<noteq> 0" using False by simp
  have one: "1 \<le> \<bar>?x\<bar>" using False by (simp add: abs_if) linarith?
  have lo: "0 \<le> ?e"
  proof -
    from floor_log2(2)[OF nz] one have "pow2 0 < pow2 (?e + 1)" by (simp add: pow2_def)
    then have "0 < ?e + 1" by (rule pow2_less_cancel)
    then show ?thesis by simp
  qed
  have hi: "?e \<le> 52"
  proof -
    have "\<bar>?x\<bar> < 2 ^ 53" using assms by (metis of_int_abs of_int_less_numeral_power_cancel_iff)
    with floor_log2(1)[OF nz] have "pow2 ?e < pow2 53" by (simp add: pow2_def)
    then have "?e < 53" by (rule pow2_less_cancel)
    then show ?thesis by simp
  qed
  have b: "binade ?x = ?e" using lo by (simp add: binade_def)
  have q: "pow2 (?e - 52) = 1 / 2 ^ nat (52 - ?e)"
    using hi by (auto simp: pow2_def)
  have "\<bar>?x\<bar> / pow2 (?e - 52) = of_int (\<bar>k\<bar> * 2 ^ nat (52 - ?e))"
    by (simp add: q)
  then have "of_int (round_half_even (\<bar>?x\<bar> / pow2 (?e - 52))) * pow2 (?e - 52) = \<bar>?x\<bar>"
    by (simp only: round_half_even_of_int) (simp add: q)
  then show ?thesis
    using nz by (simp add: nearest_double_def b sgn_real_def abs_if)
qed

lemma to_double_Num:
  assumes "\<bar>x\<bar> < 2 ^ 1000"
  shows "to_double x = Num (nearest_double x)"
proof -
  have "2 * \<bar>x\<bar> + 1 < 2 * 2 ^ 1000 + (1::real)" using assms by simp
  also have "\<dots> < pow2 1024" by (simp add: pow2_def)
  finally have "\<bar>nearest_double x\<bar> < pow2 1024"
    using nearest_double_abs_le[of x] by linarith
  then show ?thesis by (simp add: to_double_def abs_if split: if_splits)
qed

lemma to_double_of_int:
  assumes "\<bar>k\<bar> < 2 ^ 53"
  shows "to_double (of_int k) = Num (of_int k)"
proof -
  have "\<bar>of_int k :: real\<bar> < 2 ^ 53"
    using assms by (metis of_int_abs of_int_less_numeral_power_cancel_iff)
  also have "(2::real) ^ 53 < 2 ^ 1000" by simp
  finally show ?thesis
    using to_double_Num[of "of_int k"] nearest_double_of_int[OF assms] by simp
qed

lemma to_double_count: "n < 2 ^ 53 \<Longrightarrow> to_double (real n) = Num (real n)"
  using to_double_of_int[of "int n"] by simp

lemma to_double_zero: "to_double 0 = Num 0"
  using to_double_of_int[of 0] by simp

subsection \<open>The trend of two counts\<close>

lemma calculateTrend_zero: "calculateTrend today 0 = Num 0"
  by (simp add: calculateTrend_def to_double_zero)

lemma quotient_bounds:
  assumes t: "today < 2 ^ 53" and y: "yesterday < 2 ^ 53" and nz: "yesterday \<noteq> 0"
  shows "\<bar>(real today - real yesterday) / real yesterday\<bar> < 2 ^ 53"
    and "real today \<noteq> real yesterday \<Longrightarrow>
           1 / 2 ^ 53 \<le> \<bar>(real today - real yesterday) / real yesterday\<bar>"
proof -
  let ?d = "real today - real yesterday"
  have t': "real today < 9007199254740992" and y': "real yesterday < 9007199254740992"
    using t y by (simp_all add: of_nat_less_iff[of _ "2 ^ 53", where 'a = real, simplified])
  have y1: "1 \<le> real yesterday" using nz by simp
  have dabs: "\<bar>?d\<bar> < 9007199254740992" using t' y' by (simp add: abs_if)
  have "\<bar>?d / real yesterday\<bar> = \<bar>?d\<bar> / real yesterday" by simp
  also have "\<dots> \<le> \<bar>?d\<bar> / 1" using y1 by (intro divide_left_mono) simp_all
  finally show "\<bar>?d / real yesterday\<bar> < 2 ^ 53" using dabs by simp
  assume ne: "real today \<noteq> real yesterday"
  have "\<bar>int today - int yesterday\<bar> \<ge> 1" using ne by (simp add: abs_if)
  then have "1 \<le> \<bar>?d\<bar>"
    by (metis of_int_1_le_iff of_int_abs of_int_diff of_int_of_nat_eq)
  then have le: "1 / real yesterday \<le> \<bar>?d\<bar> / real yesterday"
    using y1 by (intro divide_right_mono) simp_all
  have "1 / 2 ^ 53 = 1 / (9007199254740992::real)" by simp
  also have "\<dots> \<le> 1 / real yesterday"
    using y' y1 by (intro divide_left_mono) simp_all
  also note le
  also have "\<bar>?d\<bar> / real yesterday = \<bar>?d / real yesterday\<bar>" by simp
  finally show "1 / 2 ^ 53 \<le> \<bar>?d / real yesterday\<bar>" .
qed

lemma calculateTrend_doubles:
  assumes t: "today < 2 ^ 53" and y: "yesterday < 2 ^ 53" and nz: "yesterday \<noteq> 0"
  shows "calculateTrend today yesterday
           = Num (nearest_double
                    (nearest_double ((real today - real yesterday) / real yesterday) * 100))"
proof -
  let ?d = "real today - real yesterday"
  let ?a = "?d / real yesterday"
  have ti: "int today < 9007199254740992" and yi: "int yesterday < 9007199254740992"
    using t y by simp_all
  then have "\<bar>int today - int yesterday\<bar> < 2 ^ 53" by simp
  from to_double_of_int[OF this] have sub: "to_double ?d = Num ?d" by simp
  have a53: "\<bar>?a\<bar> < 2 ^ 53" using t y nz by (rule quotient_bounds(1))
  also have "(2::real) ^ 53 < 2 ^ 1000" by simp
  finally have quo: "to_double ?a = Num (nearest_double ?a)" by (rule to_double_Num)
  have "\<bar>nearest_double ?a\<bar> \<le> 2 * \<bar>?a\<bar> + 1" by (rule nearest_double_abs_le)
  with a53 have "\<bar>nearest_double ?a * 100\<bar> < (2 * 2 ^ 53 + 1) * 100"
    by (simp add: abs_mult)
  also have "\<dots> < (2::real) ^ 1000" by simp
  finally have pro: "to_double (nearest_double ?a * 100) = Num (nearest_double (nearest_double ?a * 100))"
    by (rule to_double_Num)
  have "real yesterday \<noteq> 0" using nz by simp
  then show ?thesis
    using nz by (simp add: calculateTrend_def to_double_count[OF t] to_double_count[OF y] sub quo pro)
qed

lemma double_rounding_twice:
  fixes a :: real
  assumes lo: "1 / 2 ^ 53 \<le> \<bar>a\<bar>"
  shows "\<bar>nearest_double (nearest_double a * 100) - a * 100\<bar> \<le> \<bar>a * 100\<bar> / 2 ^ 51"
proof -
  define q where "q = nearest_double a"
  define v where "v = nearest_double (q * 100)"
  have small: "pow2 (- 1022) \<le> 1 / 2 ^ 54" by (simp add: pow2_def field_simps)
  have "1 / 2 ^ 54 \<le> 1 / (2::real) ^ 53" by simp
  with lo small have "pow2 (- 1022) \<le> \<bar>a\<bar>" by linarith
  then have e1: "\<bar>q - a\<bar> \<le> \<bar>a\<bar> / 2 ^ 53" unfolding q_def by (rule nearest_double_rel)
  have "\<bar>a\<bar> / 2 ^ 53 \<le> \<bar>a\<bar> / 2" by (rule divide_left_mono) simp_all
  with e1 have qlo: "\<bar>a\<bar> / 2 \<le> \<bar>q\<bar>" and qhi: "\<bar>q\<bar> \<le> 2 * \<bar>a\<bar>" by linarith+
  have "1 / 2 ^ 54 \<le> \<bar>a\<bar> / 2" using lo by simp
  with qlo small have "pow2 (- 1022) \<le> \<bar>q\<bar>" by linarith
  also have "\<bar>q\<bar> \<le> \<bar>q * 100\<bar>" by (simp add: abs_mult)
  finally have e2: "\<bar>v - q * 100\<bar> \<le> \<bar>q * 100\<bar> / 2 ^ 53"
    unfolding v_def by (rule nearest_double_rel)
  have q100: "\<bar>q * 100\<bar> = 100 * \<bar>q\<bar>" and a100: "\<bar>a * 100\<bar> = 100 * \<bar>a\<bar>"
    by (simp_all add: abs_mult)
  have "v - a * 100 = (v - q * 100) + 100 * (q - a)" by simp
  then have "\<bar>v - a * 100\<bar> \<le> \<bar>v - q * 100\<bar> + \<bar>100 * (q - a)\<bar>"
    by (simp only: abs_triangle_ineq)
  also have "\<bar>100 * (q - a)\<bar> = 100 * \<bar>q - a\<bar>" by (simp only: abs_mult abs_numeral)
  finally have "\<bar>v - a * 100\<bar> \<le> \<bar>v - q * 100\<bar> + 100 * \<bar>q - a\<bar>" .
  also have "\<dots> \<le> 100 * \<bar>q\<bar> / 2 ^ 53 + 100 * (\<bar>a\<bar> / 2 ^ 53)"
    using e1 e2[unfolded q100] by (intro add_mono mult_left_mono) simp_all
  also have "\<dots> \<le> 100 * (2 * \<bar>a\<bar>) / 2 ^ 53 + 100 * (\<bar>a\<bar> / 2 ^ 53)"
    using qhi by (simp add: divide_right_mono)
  also have "\<dots> \<le> 100 * \<bar>a\<bar> / 2 ^ 51"
    by simp
  finally show ?thesis unfolding v_def q_def a100 .
qed

lemma calculateTrend_close:
  assumes t: "today < 2 ^ 53" and y: "yesterday < 2 ^ 53" and nz: "yesterday \<noteq> 0"
  shows "\<bar>nearest_double (nearest_double ((real today - real yesterday) / real yesterday) * 100)
           - (real today - real yesterday) / real yesterday * 100\<bar>
         \<le> \<bar>(real today - real yesterday) / real yesterday * 100\<bar> / 2 ^ 51"
proof (cases "real today = real yesterday")
  case True
  then show ?thesis by (simp add: nearest_double_def)
next
  case False
  with t y nz have "1 / 2 ^ 53 \<le> \<bar>(real today - real yesterday) / real yesterday\<bar>"
    by (rule quotient_bounds(2))
  then show ?thesis by (rule double_rounding_twice)
qed

lemma nearest_double_eval:
  assumes "pow2 k \<le> \<bar>x\<bar>" "\<bar>x\<bar> < pow2 (k + 1)" "- 1022 \<le> k"
  shows "nearest_double x
           = sgn x * (of_int (round_half_even (\<bar>x\<bar> / pow2 (k - 52))) * pow2 (k - 52))"
proof -
  have "x \<noteq> 0" using assms(1) pow2_pos[of k] by auto
  moreover have "binade x = k"
    using floor_log2_eq[OF assms(1,2)] assms(3) by (simp add: binade_def)
  ultimately show ?thesis by (simp add: nearest_double_def)
qed

lemma calculateTrend_10_5: "calculateTrend 10 5 = Num 100"
proof -
  have "nearest_double (of_int 1) = of_int 1" "nearest_double (of_int 100) = of_int 100"
    by (rule nearest_double_of_int, simp)+
  then have "nearest_double 1 = 1" "nearest_double 100 = 100" by simp_all
  then show ?thesis
    using calculateTrend_doubles[of 10 5] by simp
qed

lemma two_thirds: "nearest_double (- (2 / 3)) = - (6004799503160661 / 2 ^ 53)"
proof -
  have "nearest_double (- (2 / 3))
          = sgn (- (2 / 3) :: real)
            * (of_int (round_half_even (\<bar>- (2 / 3)\<bar> / pow2 (- 1 - 52))) * pow2 (- 1 - 52))"
    by (rule nearest_double_eval) (simp_all add: pow2_def)
  also have "\<bar>- (2 / 3 :: real)\<bar> / pow2 (- 1 - 52) = 18014398509481984 / 3"
    by (simp add: pow2_def)
  also have "round_half_even (18014398509481984 / 3) = 6004799503160661"
    by (simp add: round_half_even_def)
  finally show ?thesis by (simp add: pow2_def)
qed

lemma sixty_six:
  "nearest_double (- (6004799503160661 / 2 ^ 53) * 100) = - (4691249611844266 / 2 ^ 46)"
proof -
  let ?x = "- (6004799503160661 / 2 ^ 53) * 100 :: real"
  have "nearest_double ?x
          = sgn ?x * (of_int (round_half_even (\<bar>?x\<bar> / pow2 (6 - 52))) * pow2 (6 - 52))"
    by (rule nearest_double_eval) (simp_all add: pow2_def)
  also have "\<bar>?x\<bar> / pow2 (6 - 52) = 150119987579016525 / 32"
    by (simp add: pow2_def)
  also have "round_half_even (150119987579016525 / 32) = 4691249611844266"
    by (simp add: round_half_even_def)
  finally show ?thesis by (simp add: pow2_def)
qed

text \<open>
  C6: the trend is 0 when yesterday's count is 0, whatever today's count is. When
  yesterday's count is not 0, the trend is \<open>(today - yesterday) / yesterday * 100\<close> as
  the double arithmetic of the source computes it: the difference is exact, the quotient
  is rounded to a double and so is the product; the result is a finite number, never NaN
  or an infinity, and differs from the exact value by at most its \<open>2\<^sup>-\<^sup>5\<^sup>1\<close>-th part.
  For 0 and 0 the trend is 0, for 10 and 5 it is 100.
\<close>

theorem calculateTrend_value:
  "calculateTrend today 0 = Num 0
   \<and> calculateTrend 0 0 = Num 0
   \<and> calculateTrend 10 5 = Num 100
   \<and> (today < 2 ^ 53 \<and> yesterday < 2 ^ 53 \<and> yesterday \<noteq> 0 \<longrightarrow>
        calculateTrend today yesterday
          = Num (nearest_double
                   (nearest_double ((real today - real yesterday) / real yesterday) * 100))
        \<and> \<bar>nearest_double
               (nearest_double ((real today - real yesterday) / real yesterday) * 100)
             - (real today - real yesterday) / real yesterday * 100\<bar>
            \<le> \<bar>(real today - real yesterday) / real yesterday * 100\<bar> / 2 ^ 51)"
  using calculateTrend_zero calculateTrend_10_5 calculateTrend_doubles calculateTrend_close
  by blast

theorem calculateTrend_value_witness:
  "(1::nat) < 2 ^ 53 \<and> (3::nat) < 2 ^ 53 \<and> (3::nat) \<noteq> 0
   \<and> calculateTrend 1 3 = Num (- (4691249611844266 / 2 ^ 46))"
proof -
  have h: "(1::nat) < 2 ^ 53 \<and> (3::nat) < 2 ^ 53 \<and> (3::nat) \<noteq> 0" by simp
  have q: "(real 1 - real 3) / real 3 = - (2 / 3)" by simp
  from calculateTrend_value[of 1 3] h
  have "calculateTrend 1 3
          = Num (nearest_double (nearest_double ((real 1 - real 3) / real 3) * 100))"
    by blast
  then have "calculateTrend 1 3 = Num (- (4691249611844266 / 2 ^ 46))"
    by (simp only: q two_thirds sixty_six)
  with h show ?thesis by blast
qed

text \<open>Every entry is formatted, so the joined promise resolves.\<close>

lemma format_activity_Inr: "\<exists>a. format_activity g f e = Inr a"
  by (simp add: format_activity_def split: sum.split)

lemma promise_all_Inr:
  "\<forall>x\<in>set xs. \<exists>a. f x = Inr a \<Longrightarrow> promise_all (map f xs) = Inr (map (\<lambda>x. projr (f x)) xs)"
  by (induction xs) auto

lemma activities_resolved:
  "promise_all (map (format_activity g f) logs) = Inr (map (\<lambda>x. projr (format_activity g f x)) logs)"
  by (rule promise_all_Inr) (simp add: format_activity_Inr)

text \<open>
  C9: the trend of the \<^verbatim>\<open>totalReaders\<close> metric is computed from today's and
  yesterday's article counts; it is the trend of \<^verbatim>\<open>totalNews\<close>, and no count of
  readers or likes enters it.
\<close>

theorem readers_trend_is_articles_trend:
  "\<exists>d. getDashboardData q getClerkUser formatLogAction = Inr d
     \<and> metric_trend (totalReaders (metrics d))
         = calculateTrend (todayArticles q) (yesterdayArticles q)
     \<and> metric_trend (totalReaders (metrics d)) = metric_trend (totalNews (metrics d))"
  by (simp add: getDashboardData_def Let_def activities_resolved)

text \<open>
  C7: whatever lookups of the identity provider fail, the dashboard returns an activity
  for every log entry, in order. An entry whose lookup failed has null first name, last
  name and image; an entry whose lookup succeeded has the fields of its own profile
  (a missing or empty field is null), so every non-empty field of the profile is kept.
\<close>

theorem activity_lookup_failure_isolated:
  "\<exists>d. getDashboardData q getClerkUser formatLogAction = Inr d
     \<and> length (activities d) = length (recentActivities q)
     \<and> (\<forall>i < length (recentActivities q).
          activity_id (activities d ! i) = log_id (recentActivities q ! i)
          \<and> (case getClerkUser (log_user_clerkId (recentActivities q ! i)) of
               Inl e \<Rightarrow>
                 au_firstName (activity_user (activities d ! i)) = None
                 \<and> au_lastName (activity_user (activities d ! i)) = None
                 \<and> au_imageUrl (activity_user (activities d ! i)) = None
             | Inr clerkUser \<Rightarrow>
                 au_firstName (activity_user (activities d ! i)) = profile_field firstName clerkUser
                 \<and> au_lastName (activity_user (activities d ! i)) = profile_field lastName clerkUser
                 \<and> au_imageUrl (activity_user (activities d ! i)) = profile_field imageUrl clerkUser
                 \<and> (\<forall>u s. clerkUser = Some u \<and> s \<noteq> [] \<longrightarrow>
                       (firstName u = Some s \<longrightarrow> au_firstName (activity_user (activities d ! i)) = Some s)
                     \<and> (lastName u = Some s \<longrightarrow> au_lastName (activity_user (activities d ! i)) = Some s)
                     \<and> (imageUrl u = Some s \<longrightarrow> au_imageUrl (activity_user (activities d ! i)) = Some s))))"
  by (auto simp add: getDashboardData_def Let_def activities_resolved format_activity_def
       profile_field_def split: sum.split)

theorem activity_lookup_failure_isolated_witness:
  "\<exists>d. getDashboardData example_queries example_getClerkUser id = Inr d
     \<and> length (activities d) = 2
     \<and> au_firstName (activity_user (activities d ! 0)) = None
     \<and> au_lastName (activity_user (activities d ! 0)) = None
     \<and> au_imageUrl (activity_user (activities d ! 0)) = None
     \<and> au_firstName (activity_user (activities d ! 1)) = Some ''Ada''
     \<and> au_lastName (activity_user (activities d ! 1)) = Some ''Lovelace''
     \<and> au_imageUrl (activity_user (activities d ! 1)) = Some ''a.png''"
proof -
  from activity_lookup_failure_isolated[of example_queries example_getClerkUser id]
  obtain d where d: "getDashboardData example_queries example_getClerkUser id = Inr d"
    and len: "length (activities d) = length (recentActivities example_queries)"
    and each: "\<forall>i < length (recentActivities example_queries).
          activity_id (activities d ! i) = log_id (recentActivities example_queries ! i)
          \<and> (case example_getClerkUser (log_user_clerkId (recentActivities example_queries ! i)) of
               Inl e \<Rightarrow>
                 au_firstName (activity_user (activities d ! i)) = None
                 \<and> au_lastName (activity_user (activities d ! i)) = None
                 \<and> au_imageUrl (activity_user (activities d ! i)) = None
             | Inr clerkUser \<Rightarrow>
                 au_firstName (activity_user (activities d ! i)) = profile_field firstName clerkUser
                 \<and> au_lastName (activity_user (activities d ! i)) = profile_field lastName clerkUser
                 \<and> au_imageUrl (activity_user (activities d ! i)) = profile_field imageUrl clerkUser
                 \<and> (\<forall>u s. clerkUser = Some u \<and> s \<noteq> [] \<longrightarrow>
                       (firstName u = Some s \<longrightarrow> au_firstName (activity_user (activities d ! i)) = Some s)
                     \<and> (lastName u = Some s \<longrightarrow> au_lastName (activity_user (activities d ! i)) = Some s)
                     \<and> (imageUrl u = Some s \<longrightarrow> au_imageUrl (activity_user (activities d ! i)) = Some s)))"
    by blast
  have l: "length (recentActivities example_queries) = 2"
    by (simp add: example_queries_def)
  from each[rule_format, of 0] have e0:
    "au_firstName (activity_user (activities d ! 0)) = None
     \<and> au_lastName (activity_user (activities d ! 0)) = None
     \<and> au_imageUrl (activity_user (activities d ! 0)) = None"
    by (simp add: example_queries_def example_getClerkUser_def)
  from each[rule_format, of 1] have e1:
    "au_firstName (activity_user (activities d ! 1)) = Some ''Ada''
     \<and> au_lastName (activity_user (activities d ! 1)) = Some ''Lovelace''
     \<and> au_imageUrl (activity_user (activities d ! 1)) = Some ''a.png''"
    by (simp add: example_queries_def example_getClerkUser_def profile_field_def)
  from d len l e0 e1 show ?thesis by auto
qed

end
